theory Spec2Isabelle
  imports Main "HOL-Library.Word" "HOL-Library.Sublist"
begin

section \<open>The in-memory assembler of s3tar (mem\_concat.go)\<close>

subsection \<open>Machine integers and constants\<close>

type_synonym byte = "8 word"

text \<open>
  Go's \<open>int64\<close> is modelled as \<open>int\<close>; \<open>int64\<close> reduces the result of an
  addition to the signed 64-bit range, as \<open>+=\<close> on an \<open>int64\<close> does.
\<close>

definition int64 :: "int \<Rightarrow> int" where
  "int64 x = (x + 2 ^ 63) mod 2 ^ 64 - 2 ^ 63"

text \<open>
  Modelled from the spec: the constants \<open>fileSizeMin\<close>, \<open>partSizeMax\<close> and
  \<open>maxPartNumLimit\<close> are declared in a file that is not under src/. The spec binds
  \<open>partSizeMin = 5 MiB\<close> (the name \<open>fileSizeMin\<close> of mem\_concat.go),
  \<open>partSizeMax = 5 GiB\<close> and \<open>maxPartNumLimit = 10 000\<close>; the error messages of
  \<open>buildInMemoryConcat\<close> ("over the 5GiB limit", "(10k)") agree.
\<close>

definition fileSizeMin :: int where
  "fileSizeMin = 5 * 1024 * 1024"

definition partSizeMax :: int where
  "partSizeMax = 5 * 1024 * 1024 * 1024"

definition maxPartNumLimit :: nat where
  "maxPartNumLimit = 10000"

subsection \<open>Object references\<close>

text \<open>
  \<open>S3Obj\<close>: the fields of the struct that mem\_concat.go reads or writes. The Go
  fields \<open>Key\<close>, \<open>Size\<close>, \<open>ETag\<close> and \<open>LastModified\<close> are pointers; the model
  takes them as set (the listing and the manifest reader always fill them in).
\<close>

record S3Obj =
  Bucket :: string
  Key :: string
  Size :: int
  ETag :: string
  LastModified :: int
  Data :: "byte list"

subsection \<open>findLargestObject\<close>

definition findLargestObject :: "S3Obj list \<Rightarrow> int" where
  "findLargestObject objectList =
     foldl (\<lambda>largestObject o'. if Size o' > largestObject then Size o' else largestObject)
       0 objectList"

subsection \<open>splitSliceBySizeLimit\<close>

text \<open>
  The loop of \<open>splitSliceBySizeLimit\<close> over the indices of \<open>objectList\<close>, with its
  three variables \<open>groups\<close>, \<open>currentGroup\<close> and \<open>currentSize\<close> as the state.
\<close>

fun splitLoop ::
  "int \<Rightarrow> S3Obj list \<Rightarrow> S3Obj list list \<times> S3Obj list \<times> int
     \<Rightarrow> S3Obj list list \<times> S3Obj list \<times> int" where
  "splitLoop groupSizeLimit [] st = st"
| "splitLoop groupSizeLimit (x # rest) (groups, currentGroup, currentSize) =
     (let currentGroup' = currentGroup @ [x];
          currentSize' = int64 (currentSize + Size x)
      in if currentSize' > groupSizeLimit \<and> currentSize' > fileSizeMin
         then splitLoop groupSizeLimit rest (groups @ [currentGroup'], [], 0)
         else splitLoop groupSizeLimit rest (groups, currentGroup', currentSize'))"

definition splitSliceBySizeLimit :: "int \<Rightarrow> S3Obj list \<Rightarrow> S3Obj list list" where
  "splitSliceBySizeLimit groupSizeLimit objectList =
     (case splitLoop groupSizeLimit objectList ([], [], 0) of
        (groups, currentGroup, currentSize) \<Rightarrow>
          if length currentGroup > 0 then groups @ [currentGroup] else groups)"

text \<open>The size that the loop has accumulated for a group: the wrapped sum of its sizes.\<close>

definition groupSize :: "S3Obj list \<Rightarrow> int" where
  "groupSize g = foldl (\<lambda>s x. int64 (s + Size x)) 0 g"

subsection \<open>Errors\<close>

text \<open>
  Every error return and panic of mem\_concat.go is a value of \<open>error\<close>. Failures of
  the collaborators (the S3 client, \<open>applySedExpression\<close>) carry the collaborator's
  message, so that they are distinct from the two errors \<open>buildInMemoryConcat\<close> makes
  itself.
\<close>

datatype error =
    ErrLargestObject
  | ErrPartCount nat
  | ClientError string
  | SedError string
  | ErrHeader
  | ErrWriteTooLong
  | ErrMissedWriting int
  | PanicSliceBounds

subsection \<open>The tar writer\<close>

datatype Format = FormatUnknown | FormatUSTAR | FormatPAX | FormatGNU

text \<open>\<open>tar.Header\<close>, with the fields that \<open>tarGroup\<close> sets.\<close>

record Header =
  hName :: string
  hSize :: int
  hMode :: int
  hModTime :: int
  hChangeTime :: int
  hAccessTime :: int
  hFormat :: Format

text \<open>
  Modelled from the spec: the tar header codec (Go's \<open>archive/tar\<close>) is not under src/.
  Section 4.1 of the spec: a member is its header, its payload of length L and
  \<open>(-L) mod 512\<close> zero bytes of padding; the trailer is two all-zero blocks. The
  encoding of a header into bytes is the parameter \<open>enc\<close> (\<open>None\<close>: the codec refuses
  the header); it may be one block of 512 bytes or, with extension records, several. A
  negative size is refused, the sizes of the spec being non-negative. The writer keeps
  the bytes written so far, the number \<open>nb\<close> of payload bytes the current member still
  expects, and the padding \<open>pad\<close> owed after it; a member whose payload is still
  incomplete fails the next \<open>Flush\<close>.
\<close>

record Writer =
  buf :: "byte list"
  nb :: int
  pad :: nat

definition NewWriter :: Writer where
  "NewWriter = \<lparr>buf = [], nb = 0, pad = 0\<rparr>"

definition blockPadding :: "int \<Rightarrow> nat" where
  "blockPadding n = nat ((- n) mod 512)"

definition Flush :: "Writer \<Rightarrow> error + Writer" where
  "Flush tw =
     (if nb tw > 0 then Inl (ErrMissedWriting (nb tw))
      else Inr (tw\<lparr>buf := buf tw @ replicate (pad tw) 0, pad := 0\<rparr>))"

definition WriteHeader :: "(Header \<Rightarrow> byte list option) \<Rightarrow> Writer \<Rightarrow> Header \<Rightarrow> error + Writer" where
  "WriteHeader enc tw h =
     (case Flush tw of
        Inl e \<Rightarrow> Inl e
      | Inr tw' \<Rightarrow>
          if hSize h < 0 then Inl ErrHeader
          else (case enc h of
                  None \<Rightarrow> Inl ErrHeader
                | Some blocks \<Rightarrow>
                    Inr (tw'\<lparr>buf := buf tw' @ blocks, nb := hSize h,
                             pad := blockPadding (hSize h)\<rparr>)))"

text \<open>
  \<open>io.Copy(tw, r)\<close>: the whole payload is written to the current member. A payload
  longer than the header's size is \<open>ErrWriteTooLong\<close>; \<open>tarGroup\<close> then drops the buffer.
\<close>

definition Copy :: "Writer \<Rightarrow> byte list \<Rightarrow> error + Writer" where
  "Copy tw r =
     (if int (length r) > nb tw then Inl ErrWriteTooLong
      else Inr (tw\<lparr>buf := buf tw @ r, nb := nb tw - int (length r)\<rparr>))"

definition Close :: "Writer \<Rightarrow> error + Writer" where
  "Close tw =
     (case Flush tw of
        Inl e \<Rightarrow> Inl e
      | Inr tw' \<Rightarrow> Inr (tw'\<lparr>buf := buf tw' @ replicate 1024 0\<rparr>))"

subsection \<open>Options, the S3 client and the calls it receives\<close>

record S3TarS3Options =
  DstBucket :: string
  DstKey :: string
  UserMaxPartSize :: int
  SedExpression :: string
  PreservePOSIXMetadata :: bool

type_synonym metadata = "(string \<times> string) list"

record CompletedPart =
  cpETag :: string
  cpPartNumber :: int

text \<open>
  The collaborators of mem\_concat.go that are not under src/, as parameters: the
  answers of the S3 client to each request (\<open>Inl\<close> an error message), the helpers
  \<open>applySedExpression\<close>, \<open>setHeaderPermissions\<close> and \<open>findMinimumPartSize\<close>, the
  package variable \<open>tarFormat\<close>, the header encoding of the tar codec and the clock.
\<close>

record Env =
  GetObject :: "string \<Rightarrow> string \<Rightarrow> string + (byte list \<times> metadata)"
  PutObject :: "string \<Rightarrow> string \<Rightarrow> byte list \<Rightarrow> string + string"
  CreateMultipartUpload :: "string \<Rightarrow> string \<Rightarrow> string + string"
  UploadPart :: "string \<Rightarrow> string \<Rightarrow> string \<Rightarrow> int \<Rightarrow> byte list \<Rightarrow> string + string"
  CompleteMultipartUpload ::
    "string \<Rightarrow> string \<Rightarrow> string \<Rightarrow> CompletedPart list \<Rightarrow> string + (string \<times> string \<times> string)"
  applySedExpression :: "string \<Rightarrow> string \<Rightarrow> string + string"
  setHeaderPermissions :: "Header \<Rightarrow> metadata \<Rightarrow> Header"
  findMinimumPartSize :: "int \<Rightarrow> int \<Rightarrow> int"
  tarFormat :: Format
  encodeHeader :: "Header \<Rightarrow> byte list option"
  now :: int

text \<open>
  The state of the object store as far as the assembler changes it: the write requests
  issued so far, in order. A request is recorded whether or not the store accepts it.
\<close>

datatype Call =
    PutObjectCall string string "byte list"
  | CreateMultipartUploadCall string string
  | UploadPartCall string string string int "byte list"
  | CompleteMultipartUploadCall string string string "CompletedPart list"

record Store =
  calls :: "Call list"

definition issue :: "Call \<Rightarrow> Store \<Rightarrow> Store" where
  "issue c s = s\<lparr>calls := calls s @ [c]\<rparr>"

subsection \<open>downloadS3Data and tarGroup\<close>

definition downloadS3Data :: "Env \<Rightarrow> S3Obj \<Rightarrow> error + (byte list \<times> metadata)" where
  "downloadS3Data env object =
     (case GetObject env (Bucket object) (Key object) of
        Inl msg \<Rightarrow> Inl (ClientError msg)
      | Inr resp \<Rightarrow> Inr resp)"

text \<open>The reader \<open>r\<close> and \<open>s3metadata\<close> of one iteration of \<open>tarGroup\<close>.\<close>

definition openObject :: "Env \<Rightarrow> S3Obj \<Rightarrow> error + (byte list \<times> metadata)" where
  "openObject env x =
     (if length (Data x) > 0 then Inr (Data x, []) else downloadS3Data env x)"

text \<open>The header \<open>h\<close> of one iteration, after \<open>setHeaderPermissions\<close> where it applies.\<close>

definition makeHeader :: "Env \<Rightarrow> S3TarS3Options \<Rightarrow> S3Obj \<Rightarrow> string \<Rightarrow> metadata \<Rightarrow> Header" where
  "makeHeader env opts x transformedKey s3metadata =
     (let h = \<lparr>hName = transformedKey, hSize = Size x, hMode = 384,
                hModTime = LastModified x, hChangeTime = LastModified x,
                hAccessTime = LastModified x, hFormat = tarFormat env\<rparr>
      in if PreservePOSIXMetadata opts then setHeaderPermissions env h s3metadata else h)"

fun tarLoop :: "Env \<Rightarrow> S3TarS3Options \<Rightarrow> Writer \<Rightarrow> S3Obj list \<Rightarrow> error + Writer" where
  "tarLoop env opts tw [] = Inr tw"
| "tarLoop env opts tw (x # rest) =
     (case openObject env x of
        Inl e \<Rightarrow> Inl e
      | Inr (r, s3metadata) \<Rightarrow>
          (case applySedExpression env (Key x) (SedExpression opts) of
             Inl msg \<Rightarrow> Inl (SedError msg)
           | Inr transformedKey \<Rightarrow>
               (case WriteHeader (encodeHeader env) tw
                       (makeHeader env opts x transformedKey s3metadata) of
                  Inl e \<Rightarrow> Inl e
                | Inr tw1 \<Rightarrow>
                    (case Copy tw1 r of
                       Inl e \<Rightarrow> Inl e
                     | Inr tw2 \<Rightarrow> tarLoop env opts tw2 rest))))"

definition tarGroup :: "Env \<Rightarrow> S3Obj list \<Rightarrow> S3TarS3Options \<Rightarrow> error + byte list" where
  "tarGroup env objectList opts =
     (case tarLoop env opts NewWriter objectList of
        Inl e \<Rightarrow> Inl e
      | Inr tw \<Rightarrow>
          (case Flush tw of
             Inl e \<Rightarrow> Inl e
           | Inr tw1 \<Rightarrow>
               (case Close tw1 of
                  Inl e \<Rightarrow> Inl e
                | Inr tw2 \<Rightarrow> Inr (buf tw2))))"

subsection \<open>uploadObject, uploadPart and buildInMemoryConcat\<close>

definition uploadObject ::
  "Env \<Rightarrow> string \<Rightarrow> string \<Rightarrow> byte list \<Rightarrow> Store \<Rightarrow> (error + S3Obj) \<times> Store" where
  "uploadObject env bucket key data s =
     (let s' = issue (PutObjectCall bucket key data) s
      in case PutObject env bucket key data of
           Inl msg \<Rightarrow> (Inl (ClientError msg), s')
         | Inr etag \<Rightarrow>
             (Inr \<lparr>Bucket = bucket, Key = key, Size = int (length data), ETag = etag,
                   LastModified = now env, Data = []\<rparr>, s'))"

definition uploadPart ::
  "Env \<Rightarrow> string \<Rightarrow> string \<Rightarrow> string \<Rightarrow> byte list \<Rightarrow> int \<Rightarrow> Store
     \<Rightarrow> (error + string) \<times> Store" where
  "uploadPart env uploadId bucket key data partNum s =
     (let s' = issue (UploadPartCall uploadId bucket key partNum data) s
      in case UploadPart env uploadId bucket key partNum data of
           Inl msg \<Rightarrow> (Inl (ClientError msg), s')
         | Inr etag \<Rightarrow> (Inr etag, s'))"

definition int32 :: "int \<Rightarrow> int" where
  "int32 x = (x + 2 ^ 31) mod 2 ^ 32 - 2 ^ 31"

text \<open>
  \<open>data[0 : len(data)-1024]\<close> on every group but the last; a slice bound below zero
  panics.
\<close>

definition stripEOF :: "nat \<Rightarrow> nat \<Rightarrow> byte list \<Rightarrow> error + byte list" where
  "stripEOF n i data =
     (if int i \<noteq> int n - 1
      then (if length data < 1024 then Inl PanicSliceBounds
            else Inr (take (length data - 1024) data))
      else Inr data)"

text \<open>
  The body of one task of \<open>processGroups\<close>, for the group at index \<open>i\<close> of \<open>n\<close>: its
  result is the error, or the entries \<open>parts[i]\<close> and \<open>partsSizeList[i]\<close>.
\<close>

definition processGroup ::
  "Env \<Rightarrow> S3TarS3Options \<Rightarrow> string \<Rightarrow> nat \<Rightarrow> nat \<Rightarrow> S3Obj list \<Rightarrow> Store
     \<Rightarrow> (error + (CompletedPart \<times> int)) \<times> Store" where
  "processGroup env opts uploadId n i grp s =
     (case tarGroup env grp opts of
        Inl e \<Rightarrow> (Inl e, s)
      | Inr data \<Rightarrow>
          (let partNum = int32 (int i + 1)
           in case stripEOF n i data of
                Inl e \<Rightarrow> (Inl e, s)
              | Inr data' \<Rightarrow>
                  (case uploadPart env uploadId (DstBucket opts) (DstKey opts) data' partNum s of
                     (Inl e, s') \<Rightarrow> (Inl e, s')
                   | (Inr etag, s') \<Rightarrow>
                       (Inr (\<lparr>cpETag = etag, cpPartNumber = partNum\<rparr>, int (length data')),
                        s'))))"

text \<open>
  \<open>processGroups\<close> starts one task per group and waits for all of them; the task group
  has no cancellation, so every task runs. Each task writes only its own index of
  \<open>parts\<close> and \<open>partsSizeList\<close>, so the tasks are taken in index order.
\<close>

fun processGroupsFrom ::
  "Env \<Rightarrow> S3TarS3Options \<Rightarrow> string \<Rightarrow> nat \<Rightarrow> nat \<Rightarrow> S3Obj list list \<Rightarrow> Store
     \<Rightarrow> (error + (CompletedPart \<times> int)) list \<times> Store" where
  "processGroupsFrom env opts uploadId n i [] s = ([], s)"
| "processGroupsFrom env opts uploadId n i (grp # rest) s =
     (case processGroup env opts uploadId n i grp s of
        (r, s') \<Rightarrow>
          (case processGroupsFrom env opts uploadId n (Suc i) rest s' of
             (rs, s'') \<Rightarrow> (r # rs, s'')))"

text \<open>\<open>g.Wait()\<close>: the error of a failed task (here the one of least index), if any.\<close>

fun firstError :: "(error + 'a) list \<Rightarrow> error option" where
  "firstError [] = None"
| "firstError (Inl e # rs) = Some e"
| "firstError (Inr v # rs) = firstError rs"

fun okValues :: "(error + 'a) list \<Rightarrow> 'a list" where
  "okValues [] = []"
| "okValues (Inl e # rs) = okValues rs"
| "okValues (Inr v # rs) = v # okValues rs"

definition sumSlice :: "int list \<Rightarrow> int" where
  "sumSlice i = foldl (\<lambda>o' v. int64 (o' + v)) 0 i"

definition buildInMemoryConcat ::
  "Env \<Rightarrow> S3Obj list \<Rightarrow> int \<Rightarrow> S3TarS3Options \<Rightarrow> Store \<Rightarrow> (error + S3Obj) \<times> Store" where
  "buildInMemoryConcat env objectList estimatedSize opts s =
     (let largestObjectSize = findLargestObject objectList
      in if largestObjectSize > partSizeMax then (Inl ErrLargestObject, s)
         else if estimatedSize < fileSizeMin then
           (case tarGroup env objectList opts of
              Inl e \<Rightarrow> (Inl e, s)
            | Inr data \<Rightarrow> uploadObject env (DstBucket opts) (DstKey opts) data s)
         else
           (let sizeLimit = findMinimumPartSize env estimatedSize (UserMaxPartSize opts);
                groups = splitSliceBySizeLimit sizeLimit objectList
            in if length groups > maxPartNumLimit then (Inl (ErrPartCount (length groups)), s)
               else
                 (let s1 = issue (CreateMultipartUploadCall (DstBucket opts) (DstKey opts)) s
                  in case CreateMultipartUpload env (DstBucket opts) (DstKey opts) of
                       Inl msg \<Rightarrow> (Inl (ClientError msg), s1)
                     | Inr uploadId \<Rightarrow>
                         (case processGroupsFrom env opts uploadId (length groups) 0 groups s1 of
                            (results, s2) \<Rightarrow>
                              (case firstError results of
                                 Some e \<Rightarrow> (Inl e, s2)
                               | None \<Rightarrow>
                                   (let parts = map fst (okValues results);
                                        partsSizeList = map snd (okValues results);
                                        s3 = issue (CompleteMultipartUploadCall uploadId
                                                      (DstBucket opts) (DstKey opts) parts) s2
                                    in case CompleteMultipartUpload env uploadId
                                              (DstBucket opts) (DstKey opts) parts of
                                         Inl msg \<Rightarrow> (Inl (ClientError msg), s3)
                                       | Inr (bucket, key, etag) \<Rightarrow>
                                           (Inr \<lparr>Bucket = bucket, Key = key,
                                                 Size = sumSlice partsSizeList, ETag = etag,
                                                 LastModified = now env, Data = []\<rparr>,
                                            s3)))))))"

subsection \<open>The archive as the spec describes it\<close>

text \<open>
  Section 8 of the spec: the archive is the concatenation of header(i), payload(i) and
  pad(i) for every member i, followed by two zero blocks. \<open>specMember\<close> is one member
  in these words (\<open>None\<close> where the member cannot be written: its payload cannot be
  read, its name cannot be rewritten, the codec refuses its header, or its payload does
  not have the size its header announces).
\<close>

definition specPad :: "int \<Rightarrow> byte list" where
  "specPad L = replicate (nat ((- L) mod 512)) 0"

definition specPayload :: "Env \<Rightarrow> S3Obj \<Rightarrow> byte list option" where
  "specPayload env x =
     (case openObject env x of
        Inl e \<Rightarrow> None
      | Inr (payload, s3metadata) \<Rightarrow> Some payload)"

definition specHeader :: "Env \<Rightarrow> S3TarS3Options \<Rightarrow> S3Obj \<Rightarrow> byte list option" where
  "specHeader env opts x =
     (case openObject env x of
        Inl e \<Rightarrow> None
      | Inr (payload, s3metadata) \<Rightarrow>
          (case applySedExpression env (Key x) (SedExpression opts) of
             Inl msg \<Rightarrow> None
           | Inr name \<Rightarrow>
               (let h = makeHeader env opts x name s3metadata
                in if hSize h = int (length payload) then encodeHeader env h else None)))"

definition specMember :: "Env \<Rightarrow> S3TarS3Options \<Rightarrow> S3Obj \<Rightarrow> byte list option" where
  "specMember env opts x =
     (case specHeader env opts x of
        None \<Rightarrow> None
      | Some header \<Rightarrow>
          (case specPayload env x of
             None \<Rightarrow> None
           | Some payload \<Rightarrow> Some (header @ payload @ specPad (int (length payload)))))"

fun specMembers :: "Env \<Rightarrow> S3TarS3Options \<Rightarrow> S3Obj list \<Rightarrow> byte list option" where
  "specMembers env opts [] = Some []"
| "specMembers env opts (x # xs) =
     (case specMember env opts x of
        None \<Rightarrow> None
      | Some m \<Rightarrow>
          (case specMembers env opts xs of
             None \<Rightarrow> None
           | Some ms \<Rightarrow> Some (m @ ms)))"

definition specArchive :: "Env \<Rightarrow> S3TarS3Options \<Rightarrow> S3Obj list \<Rightarrow> byte list option" where
  "specArchive env opts xs =
     (case specMembers env opts xs of
        None \<Rightarrow> None
      | Some ms \<Rightarrow> Some (ms @ replicate 1024 0))"

subsection \<open>Reading the calls\<close>

text \<open>
  What a run left in the store: the part numbers and bodies of the \<open>UploadPart\<close>
  requests, the bytes sent for the destination object in request order, and the requests
  a run added to the store.
\<close>

fun uploadParts :: "Call list \<Rightarrow> (int \<times> byte list) list" where
  "uploadParts [] = []"
| "uploadParts (UploadPartCall uploadId bucket key partNum body # cs) =
     (partNum, body) # uploadParts cs"
| "uploadParts (c # cs) = uploadParts cs"

fun archiveBytes :: "Call list \<Rightarrow> byte list" where
  "archiveBytes [] = []"
| "archiveBytes (PutObjectCall bucket key body # cs) = body @ archiveBytes cs"
| "archiveBytes (UploadPartCall uploadId bucket key partNum body # cs) = body @ archiveBytes cs"
| "archiveBytes (c # cs) = archiveBytes cs"

definition issued :: "Store \<Rightarrow> Store \<Rightarrow> Call list" where
  "issued s s' = drop (length (calls s)) (calls s')"

definition partData :: "Env \<Rightarrow> S3TarS3Options \<Rightarrow> nat \<Rightarrow> nat \<Rightarrow> S3Obj list \<Rightarrow> byte list option" where
  "partData env opts n i g =
     (case tarGroup env g opts of
        Inl e \<Rightarrow> None
      | Inr data \<Rightarrow> (case stripEOF n i data of Inl e \<Rightarrow> None | Inr data' \<Rightarrow> Some data'))"

fun partCalls ::
  "Env \<Rightarrow> S3TarS3Options \<Rightarrow> string \<Rightarrow> nat \<Rightarrow> nat \<Rightarrow> S3Obj list list \<Rightarrow> Call list" where
  "partCalls env opts uploadId n i [] = []"
| "partCalls env opts uploadId n i (g # gs) =
     (case partData env opts n i g of
        None \<Rightarrow> []
      | Some d \<Rightarrow> [UploadPartCall uploadId (DstBucket opts) (DstKey opts) (int32 (int i + 1)) d])
     @ partCalls env opts uploadId n (Suc i) gs"

subsection \<open>The groups of a run, and what is assumed of setHeaderPermissions\<close>

text \<open>
  The groups that \<open>buildInMemoryConcat\<close> computes, and the one property of the absent
  helper \<open>setHeaderPermissions\<close> that the size bounds need: where it is applied, it
  leaves the size field of the header alone.
\<close>

definition groupsOf :: "Env \<Rightarrow> S3Obj list \<Rightarrow> int \<Rightarrow> S3TarS3Options \<Rightarrow> S3Obj list list" where
  "groupsOf env objectList estimatedSize opts =
     splitSliceBySizeLimit (findMinimumPartSize env estimatedSize (UserMaxPartSize opts))
       objectList"

definition sizeKept :: "Env \<Rightarrow> S3TarS3Options \<Rightarrow> bool" where
  "sizeKept env opts \<longleftrightarrow>
     (PreservePOSIXMetadata opts \<longrightarrow> (\<forall>h m. hSize (setHeaderPermissions env h m) = hSize h))"

subsection \<open>Path URIs\<close>

text \<open>
  Modelled from the spec: \<open>ExtractBucketAndPath\<close> is not under src/ (only its test
  is). Section 6 of the spec: scheme \<open>s3\<close>, the authority is the bucket, the path is
  the key; parsing yields the bucket and the key without its leading slash; inputs that
  do not begin with \<open>s3://\<close> are invalid and give empty outputs.
\<close>

definition ExtractBucketAndPath :: "string \<Rightarrow> string \<times> string" where
  "ExtractBucketAndPath s3url =
     (if prefix ''s3://'' s3url
      then (let rest = drop 5 s3url
            in (takeWhile (\<lambda>c. c \<noteq> CHR ''/'') rest,
                drop 1 (dropWhile (\<lambda>c. c \<noteq> CHR ''/'') rest)))
      else ([], []))"

text \<open>The table of \<open>TestExtractBucketAndPath\<close>: the input, the bucket and the path wanted.\<close>

definition TestExtractBucketAndPath_tests :: "(string \<times> string \<times> string) list" where
  "TestExtractBucketAndPath_tests =
     [(''s3://bucket/prefix'', ''bucket'', ''prefix''),
      (''s3://bucket/prefix/'', ''bucket'', ''prefix/''),
      (''s3://bucket'', ''bucket'', []),
      (''/home/yanko'', [], []),
      ([], [], [])]"

subsection \<open>The exclude filter\<close>

text \<open>
  Modelled from the spec: \<open>matchesRegexp\<close> is not under src/ (only its test is).
  Section 4.2 of the spec: the exclude filter is a disjunction of glob-like patterns
  joined by \<open>|\<close>, translated to regular expressions by escaping regex metacharacters
  and mapping \<open>*\<close> to \<open>.*\<close> and \<open>?\<close> to \<open>.\<close>. The spec does not list the
  characters that are escaped, so they are the parameter \<open>esc\<close>; \<open>metachars\<close> are the
  metacharacters of the regular expressions of Go.
\<close>

definition metachars :: string where
  "metachars = [CHR 0x5C, CHR ''.'', CHR ''+'', CHR ''*'', CHR ''?'', CHR ''('', CHR '')'',
                CHR ''|'', CHR ''['', CHR '']'', CHR ''{'', CHR ''}'', CHR ''^'', CHR ''$'']"

fun splitOnBar :: "string \<Rightarrow> string list" where
  "splitOnBar [] = [[]]"
| "splitOnBar (c # cs) =
     (if c = CHR ''|'' then [] # splitOnBar cs
      else (case splitOnBar cs of [] \<Rightarrow> [[c]] | a # as \<Rightarrow> (c # a) # as))"

definition translateChar :: "string \<Rightarrow> char \<Rightarrow> string" where
  "translateChar esc c =
     (if c = CHR ''*'' then ''.*''
      else if c = CHR ''?'' then ''.''
      else if c \<in> set esc then [CHR 0x5C, c]
      else [c])"

definition translate :: "string \<Rightarrow> string \<Rightarrow> string" where
  "translate esc alt = concat (map (translateChar esc) alt)"

text \<open>
  The regular expression engine is Go's \<open>regexp\<close>, outside the repository. The model
  covers the part of its syntax that translations of glob patterns reach: a literal
  character, an escaped metacharacter, \<open>.\<close> (any character but a newline), \<open>.*\<close>,
  and the error of a \<open>[\<close> that no \<open>]\<close> closes; a trailing backslash is an error
  too. Any other syntax is \<open>Unmodelled\<close>: the model says nothing about it. A match is
  a match of the whole name.
\<close>

datatype re_item = Lit char | AnyChar | AnyStar

datatype compiled = Compiled "re_item list" | CompileError | Unmodelled

definition andThen :: "re_item \<Rightarrow> compiled \<Rightarrow> compiled" where
  "andThen i r = (case r of Compiled is \<Rightarrow> Compiled (i # is) | CompileError \<Rightarrow> CompileError
                   | Unmodelled \<Rightarrow> Unmodelled)"

fun compile :: "string \<Rightarrow> compiled" where
  "compile [] = Compiled []"
| "compile (c # cs) =
     (if c = CHR 0x5C then
        (case cs of
           [] \<Rightarrow> CompileError
         | d # ds \<Rightarrow> if d \<in> set metachars then andThen (Lit d) (compile ds) else Unmodelled)
      else if c = CHR ''.'' then
        (case cs of
           [] \<Rightarrow> Compiled [AnyChar]
         | d # ds \<Rightarrow> if d = CHR ''*'' then andThen AnyStar (compile ds)
                    else andThen AnyChar (compile (d # ds)))
      else if c = CHR ''['' then
        (if CHR '']'' \<in> set cs then Unmodelled else CompileError)
      else if c \<in> set metachars then Unmodelled
      else andThen (Lit c) (compile cs))"

function matchItems :: "re_item list \<Rightarrow> string \<Rightarrow> bool" where
  "matchItems [] s = (s = [])"
| "matchItems (Lit c # r) s = (case s of [] \<Rightarrow> False | d # ds \<Rightarrow> d = c \<and> matchItems r ds)"
| "matchItems (AnyChar # r) s =
     (case s of [] \<Rightarrow> False | d # ds \<Rightarrow> d \<noteq> CHR 0x0A \<and> matchItems r ds)"
| "matchItems (AnyStar # r) s =
     (matchItems r s \<or>
      (case s of [] \<Rightarrow> False | d # ds \<Rightarrow> d \<noteq> CHR 0x0A \<and> matchItems (AnyStar # r) ds))"
  by pat_completeness auto
termination
  by (relation "measure (\<lambda>(r, s). length r + length s)") auto

datatype outcome = Match bool | CompileFailure | OutsideModel

text \<open>
  The alternatives are tried in order; the first that matches decides. (No theorem
  below depends on the order: they are about patterns whose alternatives all compile, or
  about a single alternative.)
\<close>

fun matchAlternatives :: "string \<Rightarrow> string \<Rightarrow> string list \<Rightarrow> outcome" where
  "matchAlternatives esc input [] = Match False"
| "matchAlternatives esc input (alt # alts) =
     (case compile (translate esc alt) of
        CompileError \<Rightarrow> CompileFailure
      | Unmodelled \<Rightarrow> OutsideModel
      | Compiled r \<Rightarrow>
          if matchItems r input then Match True else matchAlternatives esc input alts)"

definition matchesRegexp :: "string \<Rightarrow> string \<Rightarrow> string \<Rightarrow> outcome" where
  "matchesRegexp esc input pattern = matchAlternatives esc input (splitOnBar pattern)"

text \<open>
  The table of \<open>TestMatchesRegexp\<close>: input, pattern, \<open>want\<close> and \<open>wantErr\<close>; and the
  outcome a case expects.
\<close>

definition TestMatchesRegexp_tests :: "(string \<times> string \<times> bool \<times> bool) list" where
  "TestMatchesRegexp_tests =
     [(''file.txt'', ''*.txt'', True, False),
      (''file.txt'', ''*.jpg'', False, False),
      (''file.txt'', ''file.?xt'', True, False),
      (''file.txt'', ''file.?jpg'', False, False),
      (''file.txt'', ''*.jpg|*.txt'', True, False),
      (''file.txt'', ''[*.txt'', False, True)]"

definition expected :: "bool \<Rightarrow> bool \<Rightarrow> outcome" where
  "expected want wantErr = (if wantErr then CompileFailure else Match want)"

text \<open>
  What "glob-like" means, in the words of the claim: \<open>*\<close> stands for any run of
  characters and \<open>?\<close> for any one character (neither crosses a newline, as \<open>.\<close> does
  not); every other character stands for itself. \<open>plain\<close> are the characters of a
  pattern that the translation turns into one of these.
\<close>

fun globMatch :: "string \<Rightarrow> string \<Rightarrow> bool" where
  "globMatch [] s = (s = [])"
| "globMatch (c # p) s =
     (if c = CHR ''*''
      then (\<exists>k \<in> set [0..<Suc (length s)].
              CHR 0x0A \<notin> set (take k s) \<and> globMatch p (drop k s))
      else (case s of
              [] \<Rightarrow> False
            | d # ds \<Rightarrow> (if c = CHR ''?'' then d \<noteq> CHR 0x0A else d = c) \<and> globMatch p ds))"

definition itemOf :: "char \<Rightarrow> re_item" where
  "itemOf c = (if c = CHR ''*'' then AnyStar else if c = CHR ''?'' then AnyChar else Lit c)"

definition plain :: "string \<Rightarrow> char \<Rightarrow> bool" where
  "plain esc c \<longleftrightarrow> c = CHR ''*'' \<or> c = CHR ''?'' \<or> c \<in> set esc \<or> c \<notin> set metachars"

subsection \<open>Concrete inputs\<close>

text \<open>An object of the source bucket with a given key and size, and no inline data.\<close>

definition testObject :: "string \<Rightarrow> int \<Rightarrow> S3Obj" where
  "testObject k n =
     \<lparr>Bucket = ''src'', Key = k, Size = n, ETag = [], LastModified = 0, Data = []\<rparr>"

definition demoPayload :: "string \<Rightarrow> byte list" where
  "demoPayload key =
     (if key = ''big'' then replicate 6291456 7
      else if key = ''m4'' then replicate 4194304 9
      else [1, 2, 3])"

definition demoHeader :: "string \<Rightarrow> byte list" where
  "demoHeader name = take 512 (map (of_nat \<circ> of_char) name @ replicate 512 0)"

definition demoEnv :: Env where
  "demoEnv =
     \<lparr>GetObject = (\<lambda>bucket key.
         if bucket = ''src'' then Inr (demoPayload key, []) else Inl ''NoSuchBucket''),
      PutObject = (\<lambda>bucket key body. Inr ''etag-put''),
      CreateMultipartUpload = (\<lambda>bucket key. Inr ''upload-1''),
      UploadPart = (\<lambda>uploadId bucket key partNum body. Inr ''etag-part''),
      CompleteMultipartUpload = (\<lambda>uploadId bucket key parts. Inr (bucket, key, ''etag-mpu'')),
      applySedExpression = (\<lambda>name expr. Inr name),
      setHeaderPermissions = (\<lambda>h m. h),
      findMinimumPartSize = (\<lambda>estimatedSize userMaxPartSize. fileSizeMin),
      tarFormat = FormatPAX,
      encodeHeader = (\<lambda>h. Some (demoHeader (hName h))),
      now = 0\<rparr>"

definition demoOpts :: S3TarS3Options where
  "demoOpts =
     \<lparr>DstBucket = ''dst'', DstKey = ''archive.tar'', UserMaxPartSize = 0,
      SedExpression = [], PreservePOSIXMetadata = False\<rparr>"

definition emptyStore :: Store where
  "emptyStore = \<lparr>calls = []\<rparr>"

subsection \<open>Properties of the grouping\<close>

lemma splitLoop_concat:
  "splitLoop lim xs (gs, cur, cs) = (gs', cur', cs') \<Longrightarrow>
     concat gs' @ cur' = concat gs @ cur @ xs"
proof (induction xs arbitrary: gs cur cs)
  case Nil
  then show ?case by simp
next
  case (Cons x xs)
  show ?case
  proof (cases "int64 (cs + Size x) > lim \<and> int64 (cs + Size x) > fileSizeMin")
    case True
    with Cons.prems have "splitLoop lim xs (gs @ [cur @ [x]], [], 0) = (gs', cur', cs')"
      by (simp add: Let_def)
    from Cons.IH [OF this] show ?thesis by simp
  next
    case False
    with Cons.prems
    have "splitLoop lim xs (gs, cur @ [x], int64 (cs + Size x)) = (gs', cur', cs')"
      by (auto simp: Let_def)
    from Cons.IH [OF this] show ?thesis by simp
  qed
qed

lemma splitLoop_nonempty:
  "splitLoop lim xs (gs, cur, cs) = (gs', cur', cs') \<Longrightarrow> [] \<notin> set gs \<Longrightarrow> [] \<notin> set gs'"
proof (induction xs arbitrary: gs cur cs)
  case Nil
  then show ?case by simp
next
  case (Cons x xs)
  show ?case
  proof (cases "int64 (cs + Size x) > lim \<and> int64 (cs + Size x) > fileSizeMin")
    case True
    with Cons.prems have "splitLoop lim xs (gs @ [cur @ [x]], [], 0) = (gs', cur', cs')"
      by (simp add: Let_def)
    moreover from Cons.prems have "[] \<notin> set (gs @ [cur @ [x]])" by simp
    ultimately show ?thesis by (rule Cons.IH)
  next
    case False
    with Cons.prems
    have "splitLoop lim xs (gs, cur @ [x], int64 (cs + Size x)) = (gs', cur', cs')"
      by (auto simp: Let_def)
    from Cons.IH [OF this] Cons.prems show ?thesis by simp
  qed
qed

text \<open>
  The loop invariant on sizes: \<open>currentSize\<close> is the accumulated size of
  \<open>currentGroup\<close>, and every group already closed was closed above both thresholds.
\<close>

lemma groupSize_snoc: "groupSize (g @ [x]) = int64 (groupSize g + Size x)"
  by (simp add: groupSize_def)

lemma splitLoop_closed:
  "splitLoop lim xs (gs, cur, cs) = (gs', cur', cs') \<Longrightarrow> cs = groupSize cur \<Longrightarrow>
     \<forall>g \<in> set gs. groupSize g > lim \<and> groupSize g > fileSizeMin \<Longrightarrow>
     cs' = groupSize cur' \<and> (\<forall>g \<in> set gs'. groupSize g > lim \<and> groupSize g > fileSizeMin)"
proof (induction xs arbitrary: gs cur cs)
  case Nil
  then show ?case by auto
next
  case (Cons x xs)
  show ?case
  proof (cases "int64 (cs + Size x) > lim \<and> int64 (cs + Size x) > fileSizeMin")
    case True
    with Cons.prems have run: "splitLoop lim xs (gs @ [cur @ [x]], [], 0) = (gs', cur', cs')"
      by (simp add: Let_def)
    have "(0::int) = groupSize []" by (simp add: groupSize_def)
    moreover from True Cons.prems
    have "\<forall>g \<in> set (gs @ [cur @ [x]]). groupSize g > lim \<and> groupSize g > fileSizeMin"
      by (simp add: groupSize_snoc)
    ultimately show ?thesis using Cons.IH [OF run] by blast
  next
    case False
    with Cons.prems
    have run: "splitLoop lim xs (gs, cur @ [x], int64 (cs + Size x)) = (gs', cur', cs')"
      by (auto simp: Let_def)
    from Cons.prems have "int64 (cs + Size x) = groupSize (cur @ [x])"
      by (simp add: groupSize_snoc)
    from Cons.IH [OF run this] Cons.prems show ?thesis by simp
  qed
qed

lemma concat_splitSliceBySizeLimit:
  "concat (splitSliceBySizeLimit lim xs) = xs"
proof -
  obtain gs cur cs where run: "splitLoop lim xs ([], [], 0) = (gs, cur, cs)"
    by (cases "splitLoop lim xs ([], [], 0)") auto
  from splitLoop_concat [OF run] have "concat gs @ cur = xs" by simp
  with run show ?thesis by (auto simp: splitSliceBySizeLimit_def)
qed

lemma nonempty_splitSliceBySizeLimit:
  "[] \<notin> set (splitSliceBySizeLimit lim xs)"
proof -
  obtain gs cur cs where run: "splitLoop lim xs ([], [], 0) = (gs, cur, cs)"
    by (cases "splitLoop lim xs ([], [], 0)") auto
  from splitLoop_nonempty [OF run] have "[] \<notin> set gs" by simp
  with run show ?thesis by (auto simp: splitSliceBySizeLimit_def)
qed

lemma butlast_splitSliceBySizeLimit:
  "g \<in> set (butlast (splitSliceBySizeLimit lim xs)) \<Longrightarrow>
     groupSize g > lim \<and> groupSize g > fileSizeMin"
proof -
  assume g: "g \<in> set (butlast (splitSliceBySizeLimit lim xs))"
  obtain gs cur cs where run: "splitLoop lim xs ([], [], 0) = (gs, cur, cs)"
    by (cases "splitLoop lim xs ([], [], 0)") auto
  have "(0::int) = groupSize []" by (simp add: groupSize_def)
  from splitLoop_closed [OF run this]
  have closed: "\<forall>g \<in> set gs. groupSize g > lim \<and> groupSize g > fileSizeMin" by simp
  have "set (butlast (splitSliceBySizeLimit lim xs)) \<subseteq> set gs"
    using run by (auto simp: splitSliceBySizeLimit_def dest: in_set_butlastD)
  with g closed show ?thesis by blast
qed

lemma int64_le: "- (2 ^ 63) \<le> y \<Longrightarrow> int64 y \<le> y"
  using zmod_le_nonneg_dividend [of "y + 2 ^ 63" "2 ^ 64"]
  by (simp add: int64_def)

lemma int64_ge: "- (2 ^ 63) \<le> int64 y"
  unfolding int64_def by simp

lemma groupSize_ge: "- (2 ^ 63) \<le> groupSize g"
proof (cases g rule: rev_cases)
  case Nil
  then show ?thesis by (simp add: groupSize_def)
next
  case (snoc g' x)
  then show ?thesis using int64_ge [of "groupSize g' + Size x"]
    by (simp only: groupSize_snoc)
qed

lemma groupSize_le_sum:
  "\<forall>x \<in> set g. 0 \<le> Size x \<Longrightarrow> groupSize g \<le> sum_list (map Size g)"
proof (induction g rule: rev_induct)
  case Nil
  then show ?case by (simp add: groupSize_def)
next
  case (snoc x g)
  have "- (2 ^ 63) \<le> groupSize g + Size x"
    using groupSize_ge [of g] snoc.prems by simp
  then have "int64 (groupSize g + Size x) \<le> groupSize g + Size x"
    by (rule int64_le)
  with snoc show ?case by (simp add: groupSize_snoc)
qed

text \<open>
  C10. For every size limit and every object list, \<open>splitSliceBySizeLimit\<close> returns an
  order-preserving partition of its input: the groups concatenated in order are the input
  list, and no group is empty.
\<close>

theorem splitSliceBySizeLimit_partition:
  "concat (splitSliceBySizeLimit groupSizeLimit objectList) = objectList \<and>
   [] \<notin> set (splitSliceBySizeLimit groupSizeLimit objectList)"
  by (simp add: concat_splitSliceBySizeLimit nonempty_splitSliceBySizeLimit)

theorem splitSliceBySizeLimit_partition_witness:
  "splitSliceBySizeLimit fileSizeMin
     [testObject ''a'' 3145728, testObject ''b'' 3145728, testObject ''c'' 7] =
     [[testObject ''a'' 3145728, testObject ''b'' 3145728], [testObject ''c'' 7]] \<and>
   concat (splitSliceBySizeLimit fileSizeMin
     [testObject ''a'' 3145728, testObject ''b'' 3145728, testObject ''c'' 7]) =
     [testObject ''a'' 3145728, testObject ''b'' 3145728, testObject ''c'' 7] \<and>
   [] \<notin> set (splitSliceBySizeLimit fileSizeMin
     [testObject ''a'' 3145728, testObject ''b'' 3145728, testObject ''c'' 7])"
  using splitSliceBySizeLimit_partition
    [of fileSizeMin "[testObject ''a'' 3145728, testObject ''b'' 3145728, testObject ''c'' 7]"]
  by (simp add: splitSliceBySizeLimit_def int64_def fileSizeMin_def testObject_def)

text \<open>
  C5, as the spec states it: the grouping never leaves a trailing group below the minimum
  part size when a preceding group exists. It fails: for a limit of 5 MiB and the sizes
  6 MiB and 1 byte the result is two groups, and the last one holds the single byte.
\<close>

theorem splitSliceBySizeLimit_short_tail_counterexample:
  "splitSliceBySizeLimit fileSizeMin [testObject ''a'' 6291456, testObject ''b'' 1] =
     [[testObject ''a'' 6291456], [testObject ''b'' 1]] \<and>
   groupSize [testObject ''b'' 1] < fileSizeMin"
  by (simp add: splitSliceBySizeLimit_def groupSize_def int64_def fileSizeMin_def
        testObject_def)

text \<open>
  C5, amended: every group other than the last was closed with an accumulated size above
  both the size limit and \<open>fileSizeMin\<close> (and so, for sizes that are not negative, with a
  total size above \<open>fileSizeMin\<close>); the last group is what remains and is not merged into
  its predecessor.
\<close>

theorem splitSliceBySizeLimit_closed_groups:
  assumes "g \<in> set (butlast (splitSliceBySizeLimit groupSizeLimit objectList))"
  shows "groupSize g > groupSizeLimit \<and> groupSize g > fileSizeMin \<and>
         ((\<forall>x \<in> set g. 0 \<le> Size x) \<longrightarrow> sum_list (map Size g) > fileSizeMin)"
proof -
  from butlast_splitSliceBySizeLimit [OF assms]
  have closed: "groupSize g > groupSizeLimit \<and> groupSize g > fileSizeMin" .
  moreover have "sum_list (map Size g) > fileSizeMin" if "\<forall>x \<in> set g. 0 \<le> Size x"
    using groupSize_le_sum [OF that] closed by simp
  ultimately show ?thesis by blast
qed

theorem splitSliceBySizeLimit_closed_groups_witness:
  "[testObject ''a'' 6291456] \<in>
     set (butlast (splitSliceBySizeLimit fileSizeMin
            [testObject ''a'' 6291456, testObject ''b'' 1])) \<and>
   groupSize [testObject ''a'' 6291456] > fileSizeMin \<and>
   sum_list (map Size [testObject ''a'' 6291456]) > fileSizeMin"
proof -
  have mem: "[testObject ''a'' 6291456] \<in>
     set (butlast (splitSliceBySizeLimit fileSizeMin
            [testObject ''a'' 6291456, testObject ''b'' 1]))"
    by (simp add: splitSliceBySizeLimit_def int64_def fileSizeMin_def testObject_def)
  have nonneg: "\<forall>x \<in> set [testObject ''a'' 6291456]. 0 \<le> Size x"
    by (simp add: testObject_def)
  from splitSliceBySizeLimit_closed_groups [OF mem] nonneg mem show ?thesis by blast
qed

subsection \<open>The tar writer against the spec's archive\<close>

lemma tarLoop_pending:
  "nb tw > 0 \<Longrightarrow> tarLoop env opts tw xs = Inr tw' \<Longrightarrow> nb tw' > 0"
  by (cases xs) (auto simp: WriteHeader_def Flush_def split: sum.splits prod.splits)

lemma tarLoop_step:
  assumes "tarLoop env opts tw (x # xs) = Inr tw'"
  obtains r m k blocks tw2 where
    "openObject env x = Inr (r, m)"
    "applySedExpression env (Key x) (SedExpression opts) = Inr k"
    "encodeHeader env (makeHeader env opts x k m) = Some blocks"
    "nb tw \<le> 0" "0 \<le> hSize (makeHeader env opts x k m)"
    "int (length r) \<le> hSize (makeHeader env opts x k m)"
    "tw2 = \<lparr>buf = buf tw @ replicate (pad tw) 0 @ blocks @ r,
            nb = hSize (makeHeader env opts x k m) - int (length r),
            pad = blockPadding (hSize (makeHeader env opts x k m))\<rparr>"
    "tarLoop env opts tw2 xs = Inr tw'"
  using assms
  by (cases tw)
     (auto simp: WriteHeader_def Flush_def Copy_def
           split: sum.splits prod.splits if_splits option.splits)

lemma tarLoop_spec_Some:
  "nb tw = 0 \<Longrightarrow> specMembers env opts xs = Some ms \<Longrightarrow>
     \<exists>tw'. tarLoop env opts tw xs = Inr tw' \<and> nb tw' = 0 \<and>
           buf tw' @ replicate (pad tw') 0 = buf tw @ replicate (pad tw) 0 @ ms"
proof (induction xs arbitrary: tw ms)
  case Nil
  then show ?case by simp
next
  case (Cons x xs)
  from Cons.prems(2) obtain m ms' where
    m: "specMember env opts x = Some m" and ms': "specMembers env opts xs = Some ms'"
    and ms: "ms = m @ ms'"
    by (auto split: option.splits)
  from m obtain r md k blocks where
    op: "openObject env x = Inr (r, md)" and
    sed: "applySedExpression env (Key x) (SedExpression opts) = Inr k" and
    enc: "encodeHeader env (makeHeader env opts x k md) = Some blocks" and
    sz: "hSize (makeHeader env opts x k md) = int (length r)" and
    mdef: "m = blocks @ r @ specPad (int (length r))"
    by (auto simp: specMember_def specHeader_def specPayload_def Let_def
             split: sum.splits option.splits if_splits)
  define tw2 where "tw2 = \<lparr>buf = buf tw @ replicate (pad tw) 0 @ blocks @ r,
            nb = 0, pad = blockPadding (int (length r))\<rparr>"
  have step: "tarLoop env opts tw (x # xs) = tarLoop env opts tw2 xs"
    using op sed enc sz Cons.prems(1)
    by (cases tw) (simp add: WriteHeader_def Flush_def Copy_def tw2_def)
  have "nb tw2 = 0" by (simp add: tw2_def)
  from Cons.IH [OF this ms'] obtain tw' where
    "tarLoop env opts tw2 xs = Inr tw'" "nb tw' = 0"
    "buf tw' @ replicate (pad tw') 0 = buf tw2 @ replicate (pad tw2) 0 @ ms'"
    by blast
  then show ?case using step ms mdef
    by (simp add: tw2_def specPad_def blockPadding_def)
qed

lemma tarLoop_spec_Inr:
  "nb tw = 0 \<Longrightarrow> tarLoop env opts tw xs = Inr tw' \<Longrightarrow> nb tw' \<le> 0 \<Longrightarrow>
     \<exists>ms. specMembers env opts xs = Some ms"
proof (induction xs arbitrary: tw)
  case Nil
  then show ?case by simp
next
  case (Cons x xs)
  from Cons.prems(2) obtain r m k blocks tw2 where
    op: "openObject env x = Inr (r, m)" and
    sed: "applySedExpression env (Key x) (SedExpression opts) = Inr k" and
    enc: "encodeHeader env (makeHeader env opts x k m) = Some blocks" and
    le: "int (length r) \<le> hSize (makeHeader env opts x k m)" and
    tw2: "tw2 = \<lparr>buf = buf tw @ replicate (pad tw) 0 @ blocks @ r,
            nb = hSize (makeHeader env opts x k m) - int (length r),
            pad = blockPadding (hSize (makeHeader env opts x k m))\<rparr>" and
    rest: "tarLoop env opts tw2 xs = Inr tw'"
    by (rule tarLoop_step)
  have nb2: "nb tw2 = 0"
  proof (rule ccontr)
    assume "nb tw2 \<noteq> 0"
    with le tw2 have "nb tw2 > 0" by simp
    from tarLoop_pending [OF this rest] Cons.prems(3) show False by simp
  qed
  with tw2 have sz: "hSize (makeHeader env opts x k m) = int (length r)" by simp
  from Cons.IH [OF nb2 rest Cons.prems(3)] obtain ms where "specMembers env opts xs = Some ms"
    by blast
  with op sed enc sz show ?case
    by (simp add: specMember_def specHeader_def specPayload_def)
qed

lemma tarGroup_Some:
  assumes "specArchive env opts xs = Some data"
  shows "tarGroup env xs opts = Inr data"
proof -
  from assms obtain ms where ms: "specMembers env opts xs = Some ms"
    and data: "data = ms @ replicate 1024 0"
    by (auto simp: specArchive_def split: option.splits)
  have "nb NewWriter = 0" by (simp add: NewWriter_def)
  from tarLoop_spec_Some [OF this ms] obtain tw' where
    "tarLoop env opts NewWriter xs = Inr tw'" "nb tw' = 0"
    "buf tw' @ replicate (pad tw') 0 = ms"
    by (auto simp: NewWriter_def)
  with data show ?thesis
    by (simp add: tarGroup_def Flush_def Close_def)
qed

lemma tarGroup_Inr:
  assumes "tarGroup env xs opts = Inr data"
  shows "specArchive env opts xs = Some data"
proof -
  from assms obtain tw where loop: "tarLoop env opts NewWriter xs = Inr tw"
    and nb: "nb tw \<le> 0" and data: "data = buf tw @ replicate (pad tw) 0 @ replicate 1024 0"
    by (auto simp: tarGroup_def Flush_def Close_def split: sum.splits if_splits)
  have nb0: "nb NewWriter = 0" by (simp add: NewWriter_def)
  from tarLoop_spec_Inr [OF nb0 loop nb] obtain ms where ms: "specMembers env opts xs = Some ms"
    by blast
  from tarLoop_spec_Some [OF nb0 ms] loop have "buf tw @ replicate (pad tw) 0 = ms"
    by (auto simp: NewWriter_def)
  with ms data show ?thesis by (simp add: specArchive_def)
qed

lemma specMembers_append:
  "specMembers env opts (xs @ ys) =
     (case specMembers env opts xs of
        None \<Rightarrow> None
      | Some a \<Rightarrow> (case specMembers env opts ys of None \<Rightarrow> None | Some b \<Rightarrow> Some (a @ b)))"
  by (induction xs) (auto split: option.splits)

lemma uploadParts_append: "uploadParts (a @ b) = uploadParts a @ uploadParts b"
  by (induction a rule: uploadParts.induct) simp_all

lemma archiveBytes_append: "archiveBytes (a @ b) = archiveBytes a @ archiveBytes b"
  by (induction a rule: archiveBytes.induct) simp_all

lemma processGroup_calls:
  "processGroup env opts uid n i g s = (r, s') \<Longrightarrow>
     calls s' = calls s @ partCalls env opts uid n i [g]"
  by (auto simp: processGroup_def partData_def uploadPart_def issue_def Let_def
           split: sum.splits prod.splits)

lemma processGroup_Inr:
  "processGroup env opts uid n i g s = (Inr v, s') \<Longrightarrow>
     \<exists>d. partData env opts n i g = Some d \<and> snd v = int (length d) \<and>
         cpPartNumber (fst v) = int32 (int i + 1)"
  by (auto simp: processGroup_def partData_def uploadPart_def issue_def Let_def
           split: sum.splits prod.splits)

lemma processGroupsFrom_calls:
  "processGroupsFrom env opts uid n i gs s = (rs, s') \<Longrightarrow>
     calls s' = calls s @ partCalls env opts uid n i gs"
proof (induction gs arbitrary: i s rs s')
  case Nil
  then show ?case by simp
next
  case (Cons g gs)
  obtain r s1 where one: "processGroup env opts uid n i g s = (r, s1)"
    by (cases "processGroup env opts uid n i g s") auto
  obtain rs1 s2 where more: "processGroupsFrom env opts uid n (Suc i) gs s1 = (rs1, s2)"
    by (cases "processGroupsFrom env opts uid n (Suc i) gs s1") auto
  from Cons.prems one more have "s' = s2" by simp
  with processGroup_calls [OF one] Cons.IH [OF more] show ?case by simp
qed

lemma processGroupsFrom_ok:
  "processGroupsFrom env opts uid n i gs s = (rs, s') \<Longrightarrow> firstError rs = None \<Longrightarrow>
     g \<in> set gs \<Longrightarrow> \<exists>data. tarGroup env g opts = Inr data"
proof (induction gs arbitrary: i s rs s')
  case Nil
  then show ?case by simp
next
  case (Cons a gs)
  obtain r s1 where one: "processGroup env opts uid n i a s = (r, s1)"
    by (cases "processGroup env opts uid n i a s") auto
  obtain rs1 s2 where more: "processGroupsFrom env opts uid n (Suc i) gs s1 = (rs1, s2)"
    by (cases "processGroupsFrom env opts uid n (Suc i) gs s1") auto
  from Cons.prems(1) one more have rs: "rs = r # rs1" by simp
  with Cons.prems(2) obtain v where r: "r = Inr v" and rs1: "firstError rs1 = None"
    by (cases r) auto
  show ?case
  proof (cases "g = a")
    case True
    from processGroup_Inr [OF one [unfolded r]] show ?thesis
      by (auto simp: True partData_def split: sum.splits)
  next
    case False
    with Cons.prems(3) have "g \<in> set gs" by simp
    from Cons.IH [OF more rs1 this] show ?thesis .
  qed
qed

subsection \<open>The branches of buildInMemoryConcat\<close>

lemma foldl_largest:
  "foldl (\<lambda>l x. if Size x > l then Size x else l) a xs > b \<longleftrightarrow>
     a > b \<or> (\<exists>x \<in> set xs. Size x > b)"
  by (induction xs arbitrary: a) auto

lemma findLargestObject_gt:
  "0 \<le> b \<Longrightarrow> findLargestObject xs > b \<longleftrightarrow> (\<exists>x \<in> set xs. Size x > b)"
  by (simp add: findLargestObject_def foldl_largest)

lemma tarLoop_not_largest: "tarLoop env opts tw xs \<noteq> Inl ErrLargestObject"
proof (induction xs arbitrary: tw)
  case Nil
  then show ?case by simp
next
  case (Cons x xs)
  then show ?case
    by (auto simp: openObject_def downloadS3Data_def WriteHeader_def Flush_def Copy_def
             split: sum.splits prod.splits option.splits if_splits)
qed

lemma tarGroup_not_largest: "tarGroup env xs opts \<noteq> Inl ErrLargestObject"
  using tarLoop_not_largest [of env opts NewWriter xs]
  by (auto simp: tarGroup_def Flush_def Close_def split: sum.splits if_splits)

lemma processGroup_not_largest:
  "processGroup env opts uid n i g s = (Inl e, s') \<Longrightarrow> e \<noteq> ErrLargestObject"
  using tarGroup_not_largest [of env g opts]
  by (auto simp: processGroup_def uploadPart_def stripEOF_def Let_def
           split: sum.splits prod.splits if_splits)

lemma processGroupsFrom_not_largest:
  "processGroupsFrom env opts uid n i gs s = (rs, s') \<Longrightarrow>
     firstError rs \<noteq> Some ErrLargestObject"
proof (induction gs arbitrary: i s rs s')
  case Nil
  then show ?case by auto
next
  case (Cons g gs)
  obtain r s1 where one: "processGroup env opts uid n i g s = (r, s1)"
    by (cases "processGroup env opts uid n i g s") auto
  obtain rs1 s2 where more: "processGroupsFrom env opts uid n (Suc i) gs s1 = (rs1, s2)"
    by (cases "processGroupsFrom env opts uid n (Suc i) gs s1") auto
  from Cons.prems one more have rs: "rs = r # rs1" by simp
  show ?case
  proof (cases r)
    case (Inl e)
    with processGroup_not_largest [of env opts uid n i g s e s1] one rs show ?thesis by simp
  next
    case (Inr v)
    with Cons.IH [OF more] rs show ?thesis by simp
  qed
qed

lemma build_too_large:
  "findLargestObject objectList > partSizeMax \<Longrightarrow>
     buildInMemoryConcat env objectList estimatedSize opts s = (Inl ErrLargestObject, s)"
  by (simp add: buildInMemoryConcat_def)

lemma build_small:
  "\<not> findLargestObject objectList > partSizeMax \<Longrightarrow> estimatedSize < fileSizeMin \<Longrightarrow>
     buildInMemoryConcat env objectList estimatedSize opts s =
       (case tarGroup env objectList opts of
          Inl e \<Rightarrow> (Inl e, s)
        | Inr data \<Rightarrow> uploadObject env (DstBucket opts) (DstKey opts) data s)"
  by (simp add: buildInMemoryConcat_def)

lemma build_budget:
  "\<not> findLargestObject objectList > partSizeMax \<Longrightarrow> \<not> estimatedSize < fileSizeMin \<Longrightarrow>
     length (groupsOf env objectList estimatedSize opts) > maxPartNumLimit \<Longrightarrow>
     buildInMemoryConcat env objectList estimatedSize opts s =
       (Inl (ErrPartCount (length (groupsOf env objectList estimatedSize opts))), s)"
  by (simp add: buildInMemoryConcat_def groupsOf_def Let_def)

lemma build_mpu_cases:
  assumes "\<not> findLargestObject objectList > partSizeMax" "\<not> estimatedSize < fileSizeMin"
    and "\<not> length (groupsOf env objectList estimatedSize opts) > maxPartNumLimit"
    and "buildInMemoryConcat env objectList estimatedSize opts s = (r, s')"
  obtains
    (create_failed) msg where
      "CreateMultipartUpload env (DstBucket opts) (DstKey opts) = Inl msg"
      "r = Inl (ClientError msg)"
      "s' = issue (CreateMultipartUploadCall (DstBucket opts) (DstKey opts)) s"
  | (task_failed) uid rs e where
      "CreateMultipartUpload env (DstBucket opts) (DstKey opts) = Inr uid"
      "processGroupsFrom env opts uid (length (groupsOf env objectList estimatedSize opts)) 0
         (groupsOf env objectList estimatedSize opts)
         (issue (CreateMultipartUploadCall (DstBucket opts) (DstKey opts)) s) = (rs, s')"
      "firstError rs = Some e" "r = Inl e"
  | (completed) uid rs s2 where
      "CreateMultipartUpload env (DstBucket opts) (DstKey opts) = Inr uid"
      "processGroupsFrom env opts uid (length (groupsOf env objectList estimatedSize opts)) 0
         (groupsOf env objectList estimatedSize opts)
         (issue (CreateMultipartUploadCall (DstBucket opts) (DstKey opts)) s) = (rs, s2)"
      "firstError rs = None"
      "s' = issue (CompleteMultipartUploadCall uid (DstBucket opts) (DstKey opts)
                    (map fst (okValues rs))) s2"
      "(\<exists>msg. r = Inl (ClientError msg)) \<or> (\<exists>obj. r = Inr obj)"
proof -
  define b where "b = DstBucket opts"
  define k where "k = DstKey opts"
  define gs where "gs = groupsOf env objectList estimatedSize opts"
  define s1 where "s1 = issue (CreateMultipartUploadCall b k) s"
  note defs = buildInMemoryConcat_def groupsOf_def Let_def b_def k_def gs_def s1_def
  show thesis
  proof (cases "CreateMultipartUpload env b k")
    case (Inl msg)
    with assms show ?thesis
      using create_failed [of msg] by (simp add: defs)
  next
    case (Inr uid)
    obtain rs s2 where run: "processGroupsFrom env opts uid (length gs) 0 gs s1 = (rs, s2)"
      by (cases "processGroupsFrom env opts uid (length gs) 0 gs s1") auto
    show ?thesis
    proof (cases "firstError rs")
      case (Some e)
      with assms Inr run show ?thesis
        using task_failed [of uid rs e] by (simp add: defs)
    next
      case None
      show ?thesis
      proof (cases "CompleteMultipartUpload env uid b k (map fst (okValues rs))")
        case (Inl msg)
        with None assms Inr run show ?thesis
          using completed [of uid rs s2] by (auto simp: defs)
      next
        case (Inr resp)
        with None assms \<open>CreateMultipartUpload env b k = Inr uid\<close> run show ?thesis
          using completed [of uid rs s2] by (cases resp) (auto simp: defs)
      qed
    qed
  qed
qed

lemma tarGroup_members:
  "tarGroup env g opts = Inr data \<Longrightarrow>
     \<exists>ms. specMembers env opts g = Some ms \<and> data = ms @ replicate 1024 0"
  by (drule tarGroup_Inr) (auto simp: specArchive_def split: option.splits)

lemma partData_Some:
  "partData env opts n i g = Some d \<Longrightarrow>
     \<exists>ms. specMembers env opts g = Some ms \<and>
          d = (if int i \<noteq> int n - 1 then ms else ms @ replicate 1024 0)"
  by (auto simp: partData_def stripEOF_def split: sum.splits if_splits
           dest!: tarGroup_members)

lemma partData_tar:
  "tarGroup env g opts = Inr data \<Longrightarrow> partData env opts n i g \<noteq> None"
  by (auto simp: partData_def stripEOF_def split: sum.splits dest!: tarGroup_members)

lemma partCalls_archive:
  "gs \<noteq> [] \<Longrightarrow> n = i + length gs \<Longrightarrow> \<forall>g \<in> set gs. \<exists>d. tarGroup env g opts = Inr d \<Longrightarrow>
     specArchive env opts (concat gs) = Some (archiveBytes (partCalls env opts uid n i gs))"
proof (induction gs arbitrary: i)
  case Nil
  then show ?case by simp
next
  case (Cons g gs)
  from Cons.prems(3) obtain data where "tarGroup env g opts = Inr data" by auto
  with partData_tar obtain d where d: "partData env opts n i g = Some d" by blast
  from partData_Some [OF d] obtain ms where ms: "specMembers env opts g = Some ms"
    and d_eq: "d = (if int i \<noteq> int n - 1 then ms else ms @ replicate 1024 0)" by blast
  show ?case
  proof (cases "gs = []")
    case True
    with Cons.prems(2) have "int i = int n - 1" by simp
    with d d_eq ms True show ?thesis by (simp add: specArchive_def)
  next
    case False
    with Cons.prems(2) have last: "int i \<noteq> int n - 1" and n: "n = Suc i + length gs"
      by (cases gs; simp)+
    from Cons.prems(3) have "\<forall>g \<in> set gs. \<exists>d. tarGroup env g opts = Inr d" by simp
    from Cons.IH [OF False n this]
    have "specArchive env opts (concat gs) =
            Some (archiveBytes (partCalls env opts uid n (Suc i) gs))" .
    then obtain ms' where "specMembers env opts (concat gs) = Some ms'"
      and "archiveBytes (partCalls env opts uid n (Suc i) gs) = ms' @ replicate 1024 0"
      by (auto simp: specArchive_def split: option.splits)
    with d d_eq ms last show ?thesis
      by (simp add: specArchive_def specMembers_append archiveBytes_append)
  qed
qed

lemma partCalls_index:
  "(k, body) \<in> set (uploadParts (partCalls env opts uid n i gs)) \<Longrightarrow>
     \<exists>j < length gs. k = int32 (int (i + j) + 1) \<and>
        partData env opts n (i + j) (gs ! j) = Some body"
proof (induction gs arbitrary: i)
  case Nil
  then show ?case by simp
next
  case (Cons g gs)
  from Cons.prems consider
    (head) "partData env opts n i g = Some body" "k = int32 (int i + 1)"
  | (tail) "(k, body) \<in> set (uploadParts (partCalls env opts uid n (Suc i) gs))"
    by (auto simp: uploadParts_append split: option.splits)
  then show ?case
  proof cases
    case head
    then show ?thesis by (intro exI [of _ 0]) simp
  next
    case tail
    from Cons.IH [OF tail] obtain j where "j < length gs"
      "k = int32 (int (Suc i + j) + 1)"
      "partData env opts n (Suc i + j) (gs ! j) = Some body" by blast
    then show ?thesis by (intro exI [of _ "Suc j"]) simp
  qed
qed

lemma length_uploadParts_partCalls:
  "length (uploadParts (partCalls env opts uid n i gs)) \<le> length gs"
proof (induction gs arbitrary: i)
  case Nil
  then show ?case by simp
next
  case (Cons g gs)
  from Cons.IH [of "Suc i"] show ?case
    by (cases "partData env opts n i g") (simp_all add: uploadParts_append)
qed

lemma partCalls_all:
  "\<forall>g \<in> set gs. \<exists>d. tarGroup env g opts = Inr d \<Longrightarrow>
     map (\<lambda>(k, d). (k, Some d)) (uploadParts (partCalls env opts uid n i gs)) =
       map (\<lambda>j. (int32 (int (i + j) + 1), partData env opts n (i + j) (gs ! j)))
         [0..<length gs]"
proof (induction gs arbitrary: i)
  case Nil
  then show ?case by simp
next
  case (Cons g gs)
  from Cons.prems obtain data where "tarGroup env g opts = Inr data" by auto
  with partData_tar obtain d where d: "partData env opts n i g = Some d" by blast
  from Cons.prems have "\<forall>g \<in> set gs. \<exists>d. tarGroup env g opts = Inr d" by simp
  from Cons.IH [OF this, of "Suc i"] d show ?case
    by (simp add: uploadParts_append upt_conv_Cons map_Suc_upt [symmetric] o_def
             del: upt_Suc)
qed

lemma specMember_size:
  assumes "sizeKept env opts" "specMember env opts x = Some m"
  shows "0 \<le> Size x \<and> Size x \<le> int (length m)"
proof -
  from assms(2) obtain r md k blocks where
    sz: "hSize (makeHeader env opts x k md) = int (length r)" and
    mdef: "m = blocks @ r @ specPad (int (length r))"
    by (auto simp: specMember_def specHeader_def specPayload_def Let_def
             split: sum.splits option.splits if_splits)
  from assms(1) have "hSize (makeHeader env opts x k md) = Size x"
    by (auto simp: makeHeader_def sizeKept_def Let_def)
  with sz mdef show ?thesis by simp
qed

lemma specMembers_size:
  "sizeKept env opts \<Longrightarrow> specMembers env opts g = Some ms \<Longrightarrow>
     (\<forall>x \<in> set g. 0 \<le> Size x) \<and> sum_list (map Size g) \<le> int (length ms)"
proof (induction g arbitrary: ms)
  case Nil
  then show ?case by simp
next
  case (Cons x g)
  from Cons.prems(2) obtain m ms' where
    m: "specMember env opts x = Some m" and ms': "specMembers env opts g = Some ms'"
    and ms: "ms = m @ ms'"
    by (auto split: option.splits)
  from specMember_size [OF Cons.prems(1) m] Cons.IH [OF Cons.prems(1) ms'] ms
  show ?case by simp
qed

lemma int32_id: "- (2 ^ 31) \<le> x \<Longrightarrow> x < 2 ^ 31 \<Longrightarrow> int32 x = x"
  by (simp add: int32_def)

subsection \<open>Runs and the calls they issue\<close>

lemma issued_self: "issued s s = []"
  by (simp add: issued_def)

lemma issued_append: "calls s' = calls s @ cs \<Longrightarrow> issued s s' = cs"
  by (simp add: issued_def)

lemma uploadObject_issued:
  "uploadObject env b k data s = (r, s') \<Longrightarrow> issued s s' = [PutObjectCall b k data]"
  by (auto simp: uploadObject_def issue_def issued_def Let_def split: sum.splits)

lemma archiveBytes_partCalls:
  "archiveBytes (partCalls env opts uid n i gs) =
     concat (map snd (uploadParts (partCalls env opts uid n i gs)))"
  by (induction gs arbitrary: i)
     (auto simp: archiveBytes_append uploadParts_append split: option.splits)

lemma build_mpu_issued:
  assumes "\<not> findLargestObject objectList > partSizeMax" "\<not> estimatedSize < fileSizeMin"
    and "\<not> length (groupsOf env objectList estimatedSize opts) > maxPartNumLimit"
    and "buildInMemoryConcat env objectList estimatedSize opts s = (r, s')"
  obtains
    (no_upload) msg where
      "CreateMultipartUpload env (DstBucket opts) (DstKey opts) = Inl msg"
      "r = Inl (ClientError msg)"
      "issued s s' = [CreateMultipartUploadCall (DstBucket opts) (DstKey opts)]"
  | (upload) uid tail where
      "CreateMultipartUpload env (DstBucket opts) (DstKey opts) = Inr uid"
      "issued s s' =
         CreateMultipartUploadCall (DstBucket opts) (DstKey opts) #
         partCalls env opts uid (length (groupsOf env objectList estimatedSize opts)) 0
           (groupsOf env objectList estimatedSize opts) @ tail"
      "uploadParts tail = []" "archiveBytes tail = []"
      "\<And>obj g. r = Inr obj \<Longrightarrow> g \<in> set (groupsOf env objectList estimatedSize opts) \<Longrightarrow>
         \<exists>d. tarGroup env g opts = Inr d"
  using assms
proof (cases rule: build_mpu_cases)
  case (create_failed msg)
  then show ?thesis using no_upload [of msg] by (simp add: issued_def issue_def)
next
  case (task_failed uid rs e)
  from processGroupsFrom_calls [OF task_failed(2)]
  have "issued s s' =
         CreateMultipartUploadCall (DstBucket opts) (DstKey opts) #
         partCalls env opts uid (length (groupsOf env objectList estimatedSize opts)) 0
           (groupsOf env objectList estimatedSize opts) @ []"
    by (simp add: issued_def issue_def)
  with task_failed show ?thesis using upload [of uid "[]"] by simp
next
  case (completed uid rs s2)
  from processGroupsFrom_calls [OF completed(2)] completed(4)
  have "issued s s' =
         CreateMultipartUploadCall (DstBucket opts) (DstKey opts) #
         partCalls env opts uid (length (groupsOf env objectList estimatedSize opts)) 0
           (groupsOf env objectList estimatedSize opts) @
         [CompleteMultipartUploadCall uid (DstBucket opts) (DstKey opts)
            (map fst (okValues rs))]"
    by (simp add: issued_def issue_def)
  moreover have "\<exists>d. tarGroup env g opts = Inr d"
    if "g \<in> set (groupsOf env objectList estimatedSize opts)" for g
    using processGroupsFrom_ok [OF completed(2,3) that] .
  ultimately show ?thesis using completed(1) upload [of uid] by simp
qed

lemma build_success_archive:
  assumes "buildInMemoryConcat env objectList estimatedSize opts s = (Inr obj, s')"
    and "objectList \<noteq> []"
  shows "specArchive env opts objectList = Some (archiveBytes (issued s s'))"
proof -
  have le: "\<not> findLargestObject objectList > partSizeMax"
    using assms(1) build_too_large [of objectList env estimatedSize opts s] by auto
  show ?thesis
  proof (cases "estimatedSize < fileSizeMin")
    case True
    from build_small [OF le True, of env opts s] assms(1)
    obtain data where tar: "tarGroup env objectList opts = Inr data"
      and up: "uploadObject env (DstBucket opts) (DstKey opts) data s = (Inr obj, s')"
      by (auto split: sum.splits)
    from uploadObject_issued [OF up] tarGroup_Inr [OF tar] show ?thesis by simp
  next
    case False
    have budget: "\<not> length (groupsOf env objectList estimatedSize opts) > maxPartNumLimit"
      using assms(1) build_budget [OF le False, of env opts s] by auto
    from le False budget assms(1) show ?thesis
    proof (cases rule: build_mpu_issued)
      case (no_upload msg)
      then show ?thesis by simp
    next
      case (upload uid tail)
      let ?gs = "groupsOf env objectList estimatedSize opts"
      have concat: "concat ?gs = objectList"
        by (simp add: groupsOf_def concat_splitSliceBySizeLimit)
      with assms(2) have ne: "?gs \<noteq> []" by auto
      have "\<forall>g \<in> set ?gs. \<exists>d. tarGroup env g opts = Inr d"
        using upload(5) by blast
      from partCalls_archive [OF ne _ this, of "length ?gs" 0 uid] concat upload(2,4)
      show ?thesis by (simp add: archiveBytes_append)
    qed
  qed
qed

lemma length_demoHeader: "length (demoHeader name) = 512"
  by (simp add: demoHeader_def)

lemma demoEnv_simps:
  "GetObject demoEnv bucket key =
     (if bucket = ''src'' then Inr (demoPayload key, []) else Inl ''NoSuchBucket'')"
  "PutObject demoEnv bucket key body = Inr ''etag-put''"
  "CreateMultipartUpload demoEnv bucket key = Inr ''upload-1''"
  "UploadPart demoEnv uploadId bucket key partNum body = Inr ''etag-part''"
  "CompleteMultipartUpload demoEnv uploadId bucket key parts = Inr (bucket, key, ''etag-mpu'')"
  "applySedExpression demoEnv name expr = Inr name"
  "setHeaderPermissions demoEnv h m = h"
  "findMinimumPartSize demoEnv estimatedSize userMaxPartSize = fileSizeMin"
  "tarFormat demoEnv = FormatPAX"
  "encodeHeader demoEnv h = Some (demoHeader (hName h))"
  "now demoEnv = 0"
  by (simp_all add: demoEnv_def)

lemma demoOpts_simps:
  "DstBucket demoOpts = ''dst''"
  "DstKey demoOpts = ''archive.tar''"
  "UserMaxPartSize demoOpts = 0"
  "SedExpression demoOpts = []"
  "PreservePOSIXMetadata demoOpts = False"
  by (simp_all add: demoOpts_def)

lemmas demo_defs = demoEnv_simps demoOpts_simps emptyStore_def testObject_def demoPayload_def
  openObject_def downloadS3Data_def makeHeader_def WriteHeader_def Flush_def Copy_def
  Close_def NewWriter_def blockPadding_def tarGroup_def

lemma demo_tar_m4:
  "tarGroup demoEnv [testObject ''m4'' 4194304] demoOpts =
     Inr (demoHeader ''m4'' @ replicate 4194304 9 @ replicate 1024 0)"
  by (simp add: demo_defs length_demoHeader)

lemma demo_tar_big:
  "tarGroup demoEnv [testObject ''big'' 6291456] demoOpts =
     Inr (demoHeader ''big'' @ replicate 6291456 7 @ replicate 1024 0)"
  by (simp add: demo_defs length_demoHeader)

lemma demo_tar_small:
  "tarGroup demoEnv [testObject ''small'' 3] demoOpts =
     Inr (demoHeader ''small'' @ [1, 2, 3] @ replicate 509 0 @ replicate 1024 0)"
  by (simp add: demo_defs length_demoHeader)

lemma demo_groups:
  "groupsOf demoEnv [testObject ''big'' 6291456, testObject ''small'' 3] 6293504 demoOpts =
     [[testObject ''big'' 6291456], [testObject ''small'' 3]]"
  by (simp add: groupsOf_def splitSliceBySizeLimit_def int64_def fileSizeMin_def
        demoEnv_simps testObject_def)

lemma demo_partData_big:
  "partData demoEnv demoOpts 2 0 [testObject ''big'' 6291456] =
     Some (demoHeader ''big'' @ replicate 6291456 7)"
  by (simp add: partData_def demo_tar_big stripEOF_def length_demoHeader)

lemma demo_partData_small:
  "partData demoEnv demoOpts 2 1 [testObject ''small'' 3] =
     Some (demoHeader ''small'' @ [1, 2, 3] @ replicate 509 0 @ replicate 1024 0)"
  by (simp add: partData_def demo_tar_small stripEOF_def)

lemma demo_run:
  "buildInMemoryConcat demoEnv [testObject ''big'' 6291456, testObject ''small'' 3] 6293504
     demoOpts emptyStore =
   (Inr \<lparr>Bucket = ''dst'', Key = ''archive.tar'', Size = 6294016, ETag = ''etag-mpu'',
         LastModified = 0, Data = []\<rparr>,
    \<lparr>calls =
       [CreateMultipartUploadCall ''dst'' ''archive.tar'',
        UploadPartCall ''upload-1'' ''dst'' ''archive.tar'' 1
          (demoHeader ''big'' @ replicate 6291456 7),
        UploadPartCall ''upload-1'' ''dst'' ''archive.tar'' 2
          (demoHeader ''small'' @ [1, 2, 3] @ replicate 509 0 @ replicate 1024 0),
        CompleteMultipartUploadCall ''upload-1'' ''dst'' ''archive.tar''
          [\<lparr>cpETag = ''etag-part'', cpPartNumber = 1\<rparr>,
           \<lparr>cpETag = ''etag-part'', cpPartNumber = 2\<rparr>]]\<rparr>)"
proof -
  have largest: "findLargestObject [testObject ''big'' 6291456, testObject ''small'' 3] = 6291456"
    by (simp add: findLargestObject_def testObject_def)
  have groups: "splitSliceBySizeLimit fileSizeMin
       [testObject ''big'' 6291456, testObject ''small'' 3] =
     [[testObject ''big'' 6291456], [testObject ''small'' 3]]"
    using demo_groups by (simp add: groupsOf_def demoEnv_simps)
  have fmps: "findMinimumPartSize demoEnv 6293504 (UserMaxPartSize demoOpts) = fileSizeMin"
    by (simp add: demoEnv_simps)
  have p1: "processGroup demoEnv demoOpts ''upload-1'' (Suc (Suc 0)) 0 [testObject ''big'' 6291456]
      \<lparr>calls = [CreateMultipartUploadCall ''dst'' ''archive.tar'']\<rparr> =
      (Inr (\<lparr>cpETag = ''etag-part'', cpPartNumber = 1\<rparr>, 6291968),
       \<lparr>calls = [CreateMultipartUploadCall ''dst'' ''archive.tar'',
          UploadPartCall ''upload-1'' ''dst'' ''archive.tar'' 1
            (demoHeader ''big'' @ replicate 6291456 7)]\<rparr>)"
    by (simp add: processGroup_def demo_tar_big stripEOF_def length_demoHeader uploadPart_def
          issue_def int32_def demoEnv_simps demoOpts_simps)
  have p2: "processGroup demoEnv demoOpts ''upload-1'' (Suc (Suc 0)) (Suc 0) [testObject ''small'' 3]
      \<lparr>calls = [CreateMultipartUploadCall ''dst'' ''archive.tar'',
          UploadPartCall ''upload-1'' ''dst'' ''archive.tar'' 1
            (demoHeader ''big'' @ replicate 6291456 7)]\<rparr> =
      (Inr (\<lparr>cpETag = ''etag-part'', cpPartNumber = 2\<rparr>, 2048),
       \<lparr>calls = [CreateMultipartUploadCall ''dst'' ''archive.tar'',
          UploadPartCall ''upload-1'' ''dst'' ''archive.tar'' 1
            (demoHeader ''big'' @ replicate 6291456 7),
          UploadPartCall ''upload-1'' ''dst'' ''archive.tar'' 2
            (demoHeader ''small'' @ [1, 2, 3] @ replicate 509 0 @ replicate 1024 0)]\<rparr>)"
    by (simp add: processGroup_def demo_tar_small stripEOF_def length_demoHeader uploadPart_def
          issue_def int32_def demoEnv_simps demoOpts_simps)
  have est: "\<not> (6293504::int) < fileSizeMin"
    by (simp add: fileSizeMin_def)
  show ?thesis
    by (simp add: buildInMemoryConcat_def largest fmps groups p1 p2 est Let_def
          partSizeMax_def maxPartNumLimit_def issue_def emptyStore_def demoEnv_simps
          demoOpts_simps sumSlice_def int64_def)
qed

subsection \<open>The claims on buildInMemoryConcat\<close>

lemma specHeader_size:
  assumes "sizeKept env opts" "specHeader env opts x = Some header"
    "specPayload env x = Some payload"
  shows "int (length payload) = Size x"
proof -
  from assms(2,3) obtain md k where
    sz: "hSize (makeHeader env opts x k md) = int (length payload)"
    by (auto simp: specHeader_def specPayload_def Let_def
             split: sum.splits option.splits if_splits)
  from assms(1) have "hSize (makeHeader env opts x k md) = Size x"
    by (auto simp: makeHeader_def sizeKept_def Let_def)
  with sz show ?thesis by simp
qed

text \<open>
  C1. When the estimated size is below \<open>fileSizeMin\<close> (and no member is above
  \<open>partSizeMax\<close>), \<open>buildInMemoryConcat\<close> tars the whole list in memory: if that fails
  nothing is written; otherwise the only request issued is one \<open>PutObject\<close> whose body is
  the archive of the whole list, and no multipart upload is created. For a single member
  of 4 MiB with a one-block header the body has 4 MiB + 512 + 1024 bytes.
\<close>

theorem buildInMemoryConcat_small_archive:
  assumes "estimatedSize < fileSizeMin" and "findLargestObject objectList \<le> partSizeMax"
  shows "case tarGroup env objectList opts of
           Inl e \<Rightarrow> buildInMemoryConcat env objectList estimatedSize opts s = (Inl e, s)
         | Inr data \<Rightarrow>
             specArchive env opts objectList = Some data \<and>
             issued s (snd (buildInMemoryConcat env objectList estimatedSize opts s)) =
               [PutObjectCall (DstBucket opts) (DstKey opts) data] \<and>
             (\<forall>x header. objectList = [x] \<and> Size x = 4 * 1024 * 1024 \<and> sizeKept env opts \<and>
                 specHeader env opts x = Some header \<and> length header = 512 \<longrightarrow>
                 int (length data) = 4 * 1024 * 1024 + 512 + 1024)"
proof (cases "tarGroup env objectList opts")
  case (Inl e)
  with assms show ?thesis by (simp add: build_small)
next
  case (Inr data)
  have arch: "specArchive env opts objectList = Some data"
    using Inr by (rule tarGroup_Inr)
  obtain r s' where up: "uploadObject env (DstBucket opts) (DstKey opts) data s = (r, s')"
    by (cases "uploadObject env (DstBucket opts) (DstKey opts) data s") auto
  with assms Inr have "buildInMemoryConcat env objectList estimatedSize opts s = (r, s')"
    by (simp add: build_small)
  with uploadObject_issued [OF up]
  have put: "issued s (snd (buildInMemoryConcat env objectList estimatedSize opts s)) =
               [PutObjectCall (DstBucket opts) (DstKey opts) data]" by simp
  have "int (length data) = 4 * 1024 * 1024 + 512 + 1024"
    if one: "objectList = [x]" and sz: "Size x = 4 * 1024 * 1024" and kept: "sizeKept env opts"
      and hdr: "specHeader env opts x = Some header" and len: "length header = 512"
    for x header
  proof -
    from arch one hdr obtain payload where p: "specPayload env x = Some payload"
      and data: "data = header @ payload @ specPad (int (length payload)) @ replicate 1024 0"
      by (auto simp: specArchive_def specMember_def split: option.splits)
    from specHeader_size [OF kept hdr p] sz have "int (length payload) = 4194304" by simp
    with data len show ?thesis by (simp add: specPad_def)
  qed
  with arch put Inr show ?thesis by auto
qed

theorem buildInMemoryConcat_small_archive_witness:
  "(4195840 :: int) < fileSizeMin \<and>
   findLargestObject [testObject ''m4'' 4194304] \<le> partSizeMax \<and>
   issued emptyStore
     (snd (buildInMemoryConcat demoEnv [testObject ''m4'' 4194304] 4195840 demoOpts emptyStore)) =
     [PutObjectCall ''dst'' ''archive.tar''
        (demoHeader ''m4'' @ replicate 4194304 9 @ replicate 1024 0)] \<and>
   length (demoHeader ''m4'' @ replicate 4194304 9 @ replicate 1024 0) = 4194304 + 512 + 1024"
proof -
  have est: "(4195840 :: int) < fileSizeMin" by (simp add: fileSizeMin_def)
  have largest: "findLargestObject [testObject ''m4'' 4194304] \<le> partSizeMax"
    by (simp add: findLargestObject_def testObject_def partSizeMax_def)
  from buildInMemoryConcat_small_archive [OF est largest, of demoEnv demoOpts emptyStore]
    est largest
  show ?thesis by (simp add: demo_tar_m4 demoOpts_simps length_demoHeader)
qed

lemma calls_emptyStore: "calls emptyStore = []"
  by (simp add: emptyStore_def)

lemma int32_Suc: "j < 10000 \<Longrightarrow> int32 (int j + 1) = int j + 1"
  by (rule int32_id) simp_all

lemma build_mpu_parts:
  assumes "\<not> findLargestObject objectList > partSizeMax" "\<not> estimatedSize < fileSizeMin"
    and "\<not> length (groupsOf env objectList estimatedSize opts) > maxPartNumLimit"
    and "buildInMemoryConcat env objectList estimatedSize opts s = (r, s')"
    and "CreateMultipartUpload env (DstBucket opts) (DstKey opts) = Inr uid"
    and "\<forall>g \<in> set (groupsOf env objectList estimatedSize opts). \<exists>d. tarGroup env g opts = Inr d"
  shows "map (\<lambda>(k, d). (k, Some d)) (uploadParts (issued s s')) =
           map (\<lambda>j. (int j + 1,
                  partData env opts (length (groupsOf env objectList estimatedSize opts)) j
                    (groupsOf env objectList estimatedSize opts ! j)))
             [0..<length (groupsOf env objectList estimatedSize opts)]"
  using assms(1-4)
proof (cases rule: build_mpu_issued)
  case (no_upload msg)
  with assms(5) show ?thesis by simp
next
  case (upload uid' tail)
  let ?gs = "groupsOf env objectList estimatedSize opts"
  from upload(1) assms(5) have uid: "uid' = uid" by simp
  have "uploadParts (issued s s') = uploadParts (partCalls env opts uid (length ?gs) 0 ?gs)"
    using upload(2,3) uid by (simp add: uploadParts_append)
  moreover have "map (\<lambda>j. (int32 (int (0 + j) + 1), partData env opts (length ?gs) (0 + j) (?gs ! j)))
          [0..<length ?gs] =
        map (\<lambda>j. (int j + 1, partData env opts (length ?gs) j (?gs ! j))) [0..<length ?gs]"
    using assms(3) by (auto simp: int32_Suc maxPartNumLimit_def)
  ultimately show ?thesis
    using partCalls_all [OF assms(6), of uid "length ?gs" 0] by simp
qed

text \<open>
  C2. On a successful run of the multipart branch over a non-empty list, the bodies of
  the uploaded parts are the groups' own tars, in group order, each without its two
  trailing zero blocks except the last (\<open>partData\<close>), and their concatenation is the
  single-pass tar of the whole list: header, payload and padding of every member, then
  two zero blocks.
\<close>

theorem buildInMemoryConcat_parts_are_single_pass_tar:
  assumes "fileSizeMin \<le> estimatedSize" and "objectList \<noteq> []"
    and "buildInMemoryConcat env objectList estimatedSize opts s = (Inr obj, s')"
  shows "map (\<lambda>(k, d). (k, Some d)) (uploadParts (issued s s')) =
           map (\<lambda>j. (int j + 1,
                  partData env opts (length (groupsOf env objectList estimatedSize opts)) j
                    (groupsOf env objectList estimatedSize opts ! j)))
             [0..<length (groupsOf env objectList estimatedSize opts)] \<and>
         tarGroup env objectList opts = Inr (concat (map snd (uploadParts (issued s s')))) \<and>
         specArchive env opts objectList = Some (concat (map snd (uploadParts (issued s s'))))"
proof -
  let ?gs = "groupsOf env objectList estimatedSize opts"
  have le: "\<not> findLargestObject objectList > partSizeMax"
    using assms(3) build_too_large [of objectList env estimatedSize opts s] by auto
  from assms(1) have est: "\<not> estimatedSize < fileSizeMin" by simp
  have budget: "\<not> length ?gs > maxPartNumLimit"
    using assms(3) build_budget [OF le est, of env opts s] by auto
  from le est budget assms(3)
  have shape: "(\<exists>uid. CreateMultipartUpload env (DstBucket opts) (DstKey opts) = Inr uid) \<and>
      (\<forall>g \<in> set ?gs. \<exists>d. tarGroup env g opts = Inr d) \<and>
      archiveBytes (issued s s') = concat (map snd (uploadParts (issued s s')))"
  proof (cases rule: build_mpu_issued)
    case (no_upload msg)
    then show ?thesis by simp
  next
    case (upload uid tail)
    from upload(5) have "\<forall>g \<in> set ?gs. \<exists>d. tarGroup env g opts = Inr d" by blast
    with upload(1-4) show ?thesis
      by (simp add: archiveBytes_append uploadParts_append archiveBytes_partCalls)
  qed
  then obtain uid where uid: "CreateMultipartUpload env (DstBucket opts) (DstKey opts) = Inr uid"
    by blast
  from build_success_archive [OF assms(3,2)] shape
  have arch: "specArchive env opts objectList = Some (concat (map snd (uploadParts (issued s s'))))"
    by simp
  from build_mpu_parts [OF le est budget assms(3) uid] shape tarGroup_Some [OF arch] arch
  show ?thesis by blast
qed

theorem buildInMemoryConcat_parts_are_single_pass_tar_witness:
  "fileSizeMin \<le> (6293504 :: int) \<and>
   uploadParts (issued emptyStore (snd (buildInMemoryConcat demoEnv
      [testObject ''big'' 6291456, testObject ''small'' 3] 6293504 demoOpts emptyStore))) =
     [(1, demoHeader ''big'' @ replicate 6291456 7),
      (2, demoHeader ''small'' @ [1, 2, 3] @ replicate 509 0 @ replicate 1024 0)] \<and>
   tarGroup demoEnv [testObject ''big'' 6291456, testObject ''small'' 3] demoOpts =
     Inr (demoHeader ''big'' @ replicate 6291456 7 @
          demoHeader ''small'' @ [1, 2, 3] @ replicate 509 0 @ replicate 1024 0)"
proof -
  have est: "fileSizeMin \<le> (6293504 :: int)" by (simp add: fileSizeMin_def)
  have ne: "[testObject ''big'' 6291456, testObject ''small'' 3] \<noteq> []" by simp
  from buildInMemoryConcat_parts_are_single_pass_tar [OF est ne demo_run] est
  show ?thesis by (simp add: demo_run issued_def calls_emptyStore)
qed

lemma uploadObject_error:
  "uploadObject env b k data s = (Inl e, s') \<Longrightarrow> \<exists>msg. e = ClientError msg"
  by (auto simp: uploadObject_def Let_def split: sum.splits)

lemma build_not_largest:
  assumes "\<not> findLargestObject objectList > partSizeMax"
  shows "fst (buildInMemoryConcat env objectList estimatedSize opts s) \<noteq> Inl ErrLargestObject"
proof (cases "estimatedSize < fileSizeMin")
  case True
  show ?thesis
  proof (cases "tarGroup env objectList opts")
    case (Inl e)
    with tarGroup_not_largest [of env objectList opts] assms True show ?thesis
      by (simp add: build_small)
  next
    case (Inr data)
    obtain r s' where up: "uploadObject env (DstBucket opts) (DstKey opts) data s = (r, s')"
      by (cases "uploadObject env (DstBucket opts) (DstKey opts) data s") auto
    with assms True Inr uploadObject_error [of env _ _ data s _ s'] show ?thesis
      by (cases r) (auto simp: build_small)
  qed
next
  case False
  show ?thesis
  proof (cases "length (groupsOf env objectList estimatedSize opts) > maxPartNumLimit")
    case True
    with assms False show ?thesis by (simp add: build_budget)
  next
    case budget: False
    obtain r s' where run: "buildInMemoryConcat env objectList estimatedSize opts s = (r, s')"
      by (cases "buildInMemoryConcat env objectList estimatedSize opts s") auto
    from assms False budget run have "r \<noteq> Inl ErrLargestObject"
    proof (cases rule: build_mpu_cases)
      case (create_failed msg)
      then show ?thesis by simp
    next
      case (task_failed uid rs e)
      with processGroupsFrom_not_largest [OF task_failed(2)] show ?thesis by auto
    next
      case (completed uid rs s2)
      then show ?thesis by auto
    qed
    with run show ?thesis by simp
  qed
qed

text \<open>
  C3. \<open>buildInMemoryConcat\<close> fails with the member-too-large error exactly when some
  member's size exceeds \<open>partSizeMax\<close> (a member of exactly \<open>partSizeMax\<close> does not
  raise it), and on this error the store has received no request.
\<close>

theorem buildInMemoryConcat_member_too_large:
  "(fst (buildInMemoryConcat env objectList estimatedSize opts s) = Inl ErrLargestObject \<longleftrightarrow>
      (\<exists>x \<in> set objectList. Size x > partSizeMax)) \<and>
   (fst (buildInMemoryConcat env objectList estimatedSize opts s) = Inl ErrLargestObject \<longrightarrow>
      snd (buildInMemoryConcat env objectList estimatedSize opts s) = s)"
proof (cases "findLargestObject objectList > partSizeMax")
  case True
  moreover from True have "\<exists>x \<in> set objectList. Size x > partSizeMax"
    by (simp add: findLargestObject_gt partSizeMax_def)
  ultimately show ?thesis by (simp add: build_too_large)
next
  case False
  moreover from False have "\<not> (\<exists>x \<in> set objectList. Size x > partSizeMax)"
    by (simp add: findLargestObject_gt partSizeMax_def)
  ultimately show ?thesis
    using build_not_largest [of objectList env estimatedSize opts s] by blast
qed

theorem buildInMemoryConcat_member_too_large_witness:
  "fst (buildInMemoryConcat demoEnv [testObject ''max'' 5368709120] 5368709120 demoOpts
          emptyStore) \<noteq> Inl ErrLargestObject \<and>
   buildInMemoryConcat demoEnv [testObject ''small'' 3, testObject ''huge'' 5368709121]
     5368709124 demoOpts emptyStore = (Inl ErrLargestObject, emptyStore)"
  using buildInMemoryConcat_member_too_large
      [of demoEnv "[testObject ''max'' 5368709120]" 5368709120 demoOpts emptyStore]
    buildInMemoryConcat_member_too_large
      [of demoEnv "[testObject ''small'' 3, testObject ''huge'' 5368709121]" 5368709124
         demoOpts emptyStore]
  by (simp add: testObject_def partSizeMax_def prod_eq_iff)

lemma splitLoop_replicate:
  "Size x > lim \<Longrightarrow> Size x > fileSizeMin \<Longrightarrow> Size x < 2 ^ 63 \<Longrightarrow>
     splitLoop lim (replicate n x) (gs, [], 0) = (gs @ replicate n [x], [], 0)"
proof (induction n arbitrary: gs)
  case 0
  then show ?case by simp
next
  case (Suc n)
  from Suc.prems have "int64 (Size x) = Size x"
    by (simp add: int64_def fileSizeMin_def)
  with Suc.prems Suc.IH [OF Suc.prems, of "gs @ [[x]]"] show ?case
    by (simp add: replicate_app_Cons_same)
qed

text \<open>
  C4. In the multipart branch (estimated size at least \<open>fileSizeMin\<close>, no member above
  \<open>partSizeMax\<close>): with more than \<open>maxPartNumLimit\<close> groups the run fails with the
  part-count error and the store is unchanged; otherwise its first request is
  \<open>CreateMultipartUpload\<close>, and once the upload is created and every group is tarred, the
  parts uploaded are one per group, numbered from 1 in group order.
\<close>

theorem buildInMemoryConcat_part_budget:
  assumes "fileSizeMin \<le> estimatedSize" and "findLargestObject objectList \<le> partSizeMax"
  shows "(length (groupsOf env objectList estimatedSize opts) > maxPartNumLimit \<longrightarrow>
            buildInMemoryConcat env objectList estimatedSize opts s =
              (Inl (ErrPartCount (length (groupsOf env objectList estimatedSize opts))), s)) \<and>
         (length (groupsOf env objectList estimatedSize opts) \<le> maxPartNumLimit \<longrightarrow>
            (\<exists>rest. issued s (snd (buildInMemoryConcat env objectList estimatedSize opts s)) =
                CreateMultipartUploadCall (DstBucket opts) (DstKey opts) # rest) \<and>
            ((\<exists>uid. CreateMultipartUpload env (DstBucket opts) (DstKey opts) = Inr uid) \<and>
             (\<forall>g \<in> set (groupsOf env objectList estimatedSize opts).
                 \<exists>d. tarGroup env g opts = Inr d) \<longrightarrow>
               map (\<lambda>(k, d). (k, Some d))
                 (uploadParts
                    (issued s (snd (buildInMemoryConcat env objectList estimatedSize opts s)))) =
               map (\<lambda>j. (int j + 1,
                      partData env opts (length (groupsOf env objectList estimatedSize opts)) j
                        (groupsOf env objectList estimatedSize opts ! j)))
                 [0..<length (groupsOf env objectList estimatedSize opts)]))"
proof -
  let ?gs = "groupsOf env objectList estimatedSize opts"
  from assms have le: "\<not> findLargestObject objectList > partSizeMax"
    and est: "\<not> estimatedSize < fileSizeMin" by simp_all
  obtain r s' where run: "buildInMemoryConcat env objectList estimatedSize opts s = (r, s')"
    by (cases "buildInMemoryConcat env objectList estimatedSize opts s") auto
  show ?thesis
  proof (cases "length ?gs > maxPartNumLimit")
    case True
    with le est show ?thesis by (simp add: build_budget)
  next
    case False
    from le est False run
    have first: "\<exists>rest. issued s s' =
        CreateMultipartUploadCall (DstBucket opts) (DstKey opts) # rest"
      by (cases rule: build_mpu_issued) simp_all
    have "map (\<lambda>(k, d). (k, Some d)) (uploadParts (issued s s')) =
            map (\<lambda>j. (int j + 1, partData env opts (length ?gs) j (?gs ! j))) [0..<length ?gs]"
      if "CreateMultipartUpload env (DstBucket opts) (DstKey opts) = Inr uid"
        and "\<forall>g \<in> set ?gs. \<exists>d. tarGroup env g opts = Inr d" for uid
      using build_mpu_parts [OF le est False run that] .
    with first False run show ?thesis by auto
  qed
qed

lemma findLargestObject_le:
  "0 \<le> b \<Longrightarrow> findLargestObject xs \<le> b \<longleftrightarrow> (\<forall>x \<in> set xs. Size x \<le> b)"
  using findLargestObject_gt [of b xs] by (auto simp: not_less [symmetric])

lemma demo_groups_many:
  "groupsOf demoEnv (replicate 10001 (testObject ''big'' 6291456)) 62924000000 demoOpts =
     replicate 10001 [testObject ''big'' 6291456]"
proof -
  have "splitLoop fileSizeMin (replicate 10001 (testObject ''big'' 6291456)) ([], [], 0) =
          ([] @ replicate 10001 [testObject ''big'' 6291456], [], 0)"
    by (rule splitLoop_replicate) (simp_all add: testObject_def fileSizeMin_def)
  then show ?thesis
    by (simp add: groupsOf_def splitSliceBySizeLimit_def demoEnv_simps)
qed

theorem buildInMemoryConcat_part_budget_witness:
  "fileSizeMin \<le> (6293504 :: int) \<and>
   findLargestObject [testObject ''big'' 6291456, testObject ''small'' 3] \<le> partSizeMax \<and>
   map fst (uploadParts (issued emptyStore (snd (buildInMemoryConcat demoEnv
      [testObject ''big'' 6291456, testObject ''small'' 3] 6293504 demoOpts emptyStore)))) =
     [1, 2] \<and>
   buildInMemoryConcat demoEnv (replicate 10001 (testObject ''big'' 6291456)) 62924000000
     demoOpts emptyStore = (Inl (ErrPartCount 10001), emptyStore)"
proof -
  have est: "fileSizeMin \<le> (6293504 :: int)" and est': "fileSizeMin \<le> (62924000000 :: int)"
    by (simp_all add: fileSizeMin_def)
  have largest: "findLargestObject [testObject ''big'' 6291456, testObject ''small'' 3]
      \<le> partSizeMax"
    by (simp add: findLargestObject_def testObject_def partSizeMax_def)
  have largest': "findLargestObject (replicate 10001 (testObject ''big'' 6291456))
      \<le> partSizeMax"
    by (simp add: findLargestObject_le partSizeMax_def testObject_def)
  from buildInMemoryConcat_part_budget [OF est' largest', of demoEnv demoOpts emptyStore]
  have many: "buildInMemoryConcat demoEnv (replicate 10001 (testObject ''big'' 6291456))
     62924000000 demoOpts emptyStore = (Inl (ErrPartCount 10001), emptyStore)"
    by (simp add: demo_groups_many maxPartNumLimit_def)
  have two: "map fst (uploadParts (issued emptyStore (snd (buildInMemoryConcat demoEnv
      [testObject ''big'' 6291456, testObject ''small'' 3] 6293504 demoOpts emptyStore)))) =
     [1, 2]"
    by (simp add: demo_run issued_def calls_emptyStore)
  from est largest many two show ?thesis by blast
qed

text \<open>
  C6. Whatever the outcome of a run, it uploads at most \<open>maxPartNumLimit\<close> parts, and
  every part but the one of the last group has at least \<open>fileSizeMin\<close> bytes (where
  \<open>setHeaderPermissions\<close> leaves the size field alone): its group was closed above
  \<open>fileSizeMin\<close>, and only the 1024 bytes of the trailer are taken from its tar.
\<close>

theorem buildInMemoryConcat_part_sizes:
  assumes "sizeKept env opts"
    and "buildInMemoryConcat env objectList estimatedSize opts s = (r, s')"
  shows "length (uploadParts (issued s s')) \<le> maxPartNumLimit \<and>
         (\<forall>(k, body) \<in> set (uploadParts (issued s s')).
             k \<noteq> int (length (groupsOf env objectList estimatedSize opts)) \<longrightarrow>
             fileSizeMin \<le> int (length body))"
proof -
  let ?gs = "groupsOf env objectList estimatedSize opts"
  consider (none) "uploadParts (issued s s') = []"
    | (parts) uid where "length ?gs \<le> maxPartNumLimit"
        "uploadParts (issued s s') = uploadParts (partCalls env opts uid (length ?gs) 0 ?gs)"
  proof (cases "findLargestObject objectList > partSizeMax")
    case True
    with assms(2) none show ?thesis by (simp add: build_too_large issued_self)
  next
    case le: False
    show ?thesis
    proof (cases "estimatedSize < fileSizeMin")
      case True
      show ?thesis
      proof (cases "tarGroup env objectList opts")
        case (Inl e)
        with le True assms(2) none show ?thesis by (simp add: build_small issued_self)
      next
        case (Inr data)
        with le True assms(2)
        have "uploadObject env (DstBucket opts) (DstKey opts) data s = (r, s')"
          by (simp add: build_small)
        from uploadObject_issued [OF this] none show ?thesis by simp
      qed
    next
      case est: False
      show ?thesis
      proof (cases "length ?gs > maxPartNumLimit")
        case True
        with le est assms(2) none show ?thesis by (simp add: build_budget issued_self)
      next
        case False
        from le est False assms(2) show ?thesis
        proof (cases rule: build_mpu_issued)
          case (no_upload msg)
          with none show ?thesis by simp
        next
          case (upload uid tail)
          with False parts [of uid] show ?thesis by (simp add: uploadParts_append)
        qed
      qed
    qed
  qed
  then show ?thesis
  proof cases
    case none
    then show ?thesis by simp
  next
    case (parts uid)
    have count: "length (uploadParts (issued s s')) \<le> maxPartNumLimit"
      using parts length_uploadParts_partCalls [of env opts uid "length ?gs" 0 ?gs] by simp
    have "fileSizeMin \<le> int (length body)"
      if mem: "(k, body) \<in> set (uploadParts (issued s s'))" and k: "k \<noteq> int (length ?gs)"
      for k body
    proof -
      from mem parts(2) partCalls_index [of k body env opts uid "length ?gs" 0 ?gs]
      obtain j where j: "j < length ?gs" and kj: "k = int32 (int j + 1)"
        and pd: "partData env opts (length ?gs) j (?gs ! j) = Some body" by auto
      from j parts(1) have "j < 10000" by (simp add: maxPartNumLimit_def)
      with kj have "k = int j + 1" by (simp add: int32_Suc)
      with k j have notlast: "int j \<noteq> int (length ?gs) - 1" and j': "j < length ?gs - 1"
        by auto
      from partData_Some [OF pd] notlast obtain ms where
        ms: "specMembers env opts (?gs ! j) = Some ms" and body: "body = ms" by auto
      from j' have "?gs ! j \<in> set (butlast ?gs)"
        by (metis length_butlast nth_butlast nth_mem)
      then have "groupSize (?gs ! j) > fileSizeMin"
        using butlast_splitSliceBySizeLimit by (simp add: groupsOf_def)
      moreover from specMembers_size [OF assms(1) ms]
      have "groupSize (?gs ! j) \<le> int (length ms)"
        using groupSize_le_sum [of "?gs ! j"] by simp
      ultimately show ?thesis using body by simp
    qed
    with count show ?thesis by auto
  qed
qed

theorem buildInMemoryConcat_part_sizes_witness:
  "sizeKept demoEnv demoOpts \<and>
   uploadParts (issued emptyStore (snd (buildInMemoryConcat demoEnv
      [testObject ''big'' 6291456, testObject ''small'' 3] 6293504 demoOpts emptyStore))) =
     [(1, demoHeader ''big'' @ replicate 6291456 7),
      (2, demoHeader ''small'' @ [1, 2, 3] @ replicate 509 0 @ replicate 1024 0)] \<and>
   length (groupsOf demoEnv [testObject ''big'' 6291456, testObject ''small'' 3] 6293504
             demoOpts) = 2 \<and>
   fileSizeMin \<le> int (length (demoHeader ''big'' @ replicate 6291456 7))"
proof -
  have kept: "sizeKept demoEnv demoOpts"
    by (simp add: sizeKept_def demoOpts_simps)
  from buildInMemoryConcat_part_sizes [OF kept demo_run] kept
  show ?thesis
    by (simp add: demo_run demo_groups issued_def calls_emptyStore)
qed

text \<open>
  C9. The archive of a successful run has no table of contents in front: its first
  member is the header, payload and padding of the first object of the list, under the
  name \<open>applySedExpression\<close> gives that object's key.
\<close>

theorem buildInMemoryConcat_first_member:
  assumes "buildInMemoryConcat env (x # rest) estimatedSize opts s = (Inr obj, s')"
  shows "\<exists>payload s3metadata name header.
           openObject env x = Inr (payload, s3metadata) \<and>
           applySedExpression env (Key x) (SedExpression opts) = Inr name \<and>
           (\<not> PreservePOSIXMetadata opts \<longrightarrow>
              hName (makeHeader env opts x name s3metadata) = name) \<and>
           encodeHeader env (makeHeader env opts x name s3metadata) = Some header \<and>
           prefix (header @ payload @ specPad (int (length payload)))
             (archiveBytes (issued s s'))"
proof -
  have "specArchive env opts (x # rest) = Some (archiveBytes (issued s s'))"
    using assms by (rule build_success_archive) simp
  then obtain header payload ms where
    hdr: "specHeader env opts x = Some header" and pay: "specPayload env x = Some payload"
    and arch: "header @ payload @ specPad (int (length payload)) @ ms =
                 archiveBytes (issued s s')"
    by (auto simp: specArchive_def specMember_def split: option.splits)
  from hdr pay obtain s3metadata name where
    "openObject env x = Inr (payload, s3metadata)"
    "applySedExpression env (Key x) (SedExpression opts) = Inr name"
    "encodeHeader env (makeHeader env opts x name s3metadata) = Some header"
    by (auto simp: specHeader_def specPayload_def Let_def
             split: sum.splits option.splits if_splits)
  moreover have "\<not> PreservePOSIXMetadata opts \<longrightarrow>
      hName (makeHeader env opts x name s3metadata) = name"
    by (simp add: makeHeader_def)
  moreover from arch [symmetric]
  have "archiveBytes (issued s s') = (header @ payload @ specPad (int (length payload))) @ ms"
    by simp
  then have "prefix (header @ payload @ specPad (int (length payload)))
      (archiveBytes (issued s s'))"
    by (rule prefixI)
  ultimately show ?thesis by blast
qed

lemma testObject_simps:
  "Bucket (testObject k n) = ''src''" "Key (testObject k n) = k" "Size (testObject k n) = n"
  "LastModified (testObject k n) = 0" "Data (testObject k n) = []"
  by (simp_all add: testObject_def)

theorem buildInMemoryConcat_first_member_witness:
  "prefix (demoHeader ''big'' @ replicate 6291456 7)
     (archiveBytes (issued emptyStore (snd (buildInMemoryConcat demoEnv
        [testObject ''big'' 6291456, testObject ''small'' 3] 6293504 demoOpts emptyStore)))) \<and>
   openObject demoEnv (testObject ''big'' 6291456) = Inr (replicate 6291456 7, []) \<and>
   applySedExpression demoEnv (Key (testObject ''big'' 6291456)) (SedExpression demoOpts) =
     Inr ''big''"
proof -
  have op: "openObject demoEnv (testObject ''big'' 6291456) = Inr (replicate 6291456 7, [])"
    by (simp add: openObject_def downloadS3Data_def demoEnv_simps testObject_simps
          demoPayload_def)
  have sed: "applySedExpression demoEnv (Key (testObject ''big'' 6291456))
      (SedExpression demoOpts) = Inr ''big''"
    by (simp add: demoEnv_simps testObject_simps)
  from buildInMemoryConcat_first_member [OF demo_run] op sed
  show ?thesis
    by (auto simp: demo_run makeHeader_def demoEnv_simps demoOpts_simps testObject_simps
          specPad_def)
qed

subsection \<open>Path URIs and the exclude filter\<close>

lemma ExtractBucketAndPath_s3:
  assumes "CHR ''/'' \<notin> set bucket"
  shows "ExtractBucketAndPath (''s3://'' @ bucket @ ''/'' @ key) = (bucket, key)"
    and "ExtractBucketAndPath (''s3://'' @ bucket) = (bucket, [])"
proof -
  have all: "\<forall>c \<in> set bucket. c \<noteq> CHR ''/''" using assms by auto
  have "takeWhile (\<lambda>c. c \<noteq> CHR ''/'') (bucket @ CHR ''/'' # key) = bucket"
    using all by (simp add: takeWhile_append2)
  moreover have "dropWhile (\<lambda>c. c \<noteq> CHR ''/'') (bucket @ CHR ''/'' # key) = CHR ''/'' # key"
    using all by (simp add: dropWhile_append2)
  moreover have "prefix ''s3://'' (''s3://'' @ bucket @ ''/'' @ key)"
    and "drop 5 (''s3://'' @ bucket @ ''/'' @ key) = bucket @ CHR ''/'' # key"
    by simp_all
  ultimately show "ExtractBucketAndPath (''s3://'' @ bucket @ ''/'' @ key) = (bucket, key)"
    unfolding ExtractBucketAndPath_def Let_def by (simp only: if_True drop_0 drop_Suc_Cons One_nat_def)
  have "takeWhile (\<lambda>c. c \<noteq> CHR ''/'') bucket = bucket"
    and "dropWhile (\<lambda>c. c \<noteq> CHR ''/'') bucket = []"
    using all by simp_all
  moreover have "prefix ''s3://'' (''s3://'' @ bucket)" and "drop 5 (''s3://'' @ bucket) = bucket"
    by simp_all
  ultimately show "ExtractBucketAndPath (''s3://'' @ bucket) = (bucket, [])"
    unfolding ExtractBucketAndPath_def Let_def by (simp only: if_True drop_Nil)
qed

text \<open>
  C7. \<open>ExtractBucketAndPath\<close> yields the bucket and the key without the slash between
  them for an input that begins with \<open>s3://\<close> (with or without a key), the empty
  bucket and path for every other input, and the five results that
  \<open>TestExtractBucketAndPath\<close> expects.
\<close>

theorem ExtractBucketAndPath_parses:
  "(CHR ''/'' \<notin> set bucket \<longrightarrow>
      ExtractBucketAndPath (''s3://'' @ bucket @ ''/'' @ key) = (bucket, key) \<and>
      ExtractBucketAndPath (''s3://'' @ bucket) = (bucket, [])) \<and>
   (\<not> prefix ''s3://'' s3url \<longrightarrow> ExtractBucketAndPath s3url = ([], [])) \<and>
   (\<forall>(url, wantBucket, wantPath) \<in> set TestExtractBucketAndPath_tests.
      ExtractBucketAndPath url = (wantBucket, wantPath))"
proof -
  have "\<forall>(url, wantBucket, wantPath) \<in> set TestExtractBucketAndPath_tests.
      ExtractBucketAndPath url = (wantBucket, wantPath)"
    by (simp add: TestExtractBucketAndPath_tests_def ExtractBucketAndPath_def)
  moreover have "\<not> prefix ''s3://'' s3url \<longrightarrow> ExtractBucketAndPath s3url = ([], [])"
    by (simp add: ExtractBucketAndPath_def)
  ultimately show ?thesis using ExtractBucketAndPath_s3 by blast
qed

theorem ExtractBucketAndPath_parses_witness:
  "CHR ''/'' \<notin> set ''bucket'' \<and>
   ExtractBucketAndPath ''s3://bucket/prefix/'' = (''bucket'', ''prefix/'') \<and>
   ExtractBucketAndPath ''s3://bucket'' = (''bucket'', []) \<and>
   \<not> prefix ''s3://'' ''/home/yanko'' \<and>
   ExtractBucketAndPath ''/home/yanko'' = ([], [])"
  using ExtractBucketAndPath_parses [of "''bucket''" "''prefix/''" "''/home/yanko''"]
  by simp

lemma translate_Cons: "translate esc (c # alt) = translateChar esc c @ translate esc alt"
  by (simp add: translate_def)

lemma translate_Nil: "translate esc [] = []"
  by (simp add: translate_def)

lemma translate_not_star:
  "set esc \<subseteq> set metachars \<Longrightarrow> \<forall>c \<in> set alt. plain esc c \<Longrightarrow>
     translate esc alt \<noteq> CHR ''*'' # rest"
proof (cases alt)
  case Nil
  then show ?thesis by (simp add: translate_Nil)
next
  case (Cons c alt')
  assume "\<forall>c \<in> set alt. plain esc c"
  with Cons have "plain esc c" by simp
  then show ?thesis
    unfolding Cons translate_Cons translateChar_def plain_def
    by (auto simp: metachars_def)
qed

lemma compile_translate:
  "set esc \<subseteq> set metachars \<Longrightarrow> \<forall>c \<in> set alt. plain esc c \<Longrightarrow>
     compile (translate esc alt) = Compiled (map itemOf alt)"
proof (induction alt)
  case Nil
  then show ?case by (simp add: translate_Nil)
next
  case (Cons c alt)
  from Cons.prems have rest_plain: "\<forall>c \<in> set alt. plain esc c" and c: "plain esc c"
    by simp_all
  from Cons.IH [OF Cons.prems(1) rest_plain]
  have IH: "compile (translate esc alt) = Compiled (map itemOf alt)" .
  consider (star) "c = CHR ''*''" | (quest) "c = CHR ''?''"
    | (escaped) "c \<noteq> CHR ''*''" "c \<noteq> CHR ''?''" "c \<in> set esc"
    | (literal) "c \<noteq> CHR ''*''" "c \<noteq> CHR ''?''" "c \<notin> set esc" "c \<notin> set metachars"
    using c by (auto simp: plain_def)
  then show ?case
  proof cases
    case star
    then show ?thesis
      by (simp add: translate_Cons translateChar_def IH andThen_def itemOf_def)
  next
    case quest
    show ?thesis
    proof (cases "translate esc alt")
      case Nil
      with IH have "alt = []" by simp
      with quest Nil show ?thesis
        by (simp add: translate_Cons translateChar_def itemOf_def)
    next
      case (Cons d ds)
      with translate_not_star [OF Cons.prems(1) rest_plain, of ds] have "d \<noteq> CHR ''*''"
        by auto
      with quest Cons IH show ?thesis
        by (simp add: translate_Cons translateChar_def andThen_def itemOf_def)
    qed
  next
    case escaped
    with Cons.prems(1) have "c \<in> set metachars" by auto
    with escaped show ?thesis
      by (simp add: translate_Cons translateChar_def IH andThen_def itemOf_def)
  next
    case literal
    from literal(4) have "c \<noteq> CHR 0x5C" "c \<noteq> CHR ''.''" "c \<noteq> CHR ''[''"
      by (auto simp: metachars_def)
    with literal show ?thesis
      by (simp add: translate_Cons translateChar_def IH andThen_def itemOf_def)
  qed
qed

lemma matchItems_star:
  "matchItems (AnyStar # r) s \<longleftrightarrow>
     (\<exists>k \<le> length s. CHR 0x0A \<notin> set (take k s) \<and> matchItems r (drop k s))"
proof (induction s)
  case Nil
  then show ?case by simp
next
  case (Cons d ds)
  show ?case
  proof
    assume "matchItems (AnyStar # r) (d # ds)"
    then consider "matchItems r (d # ds)"
      | "d \<noteq> CHR 0x0A" "matchItems (AnyStar # r) ds" by auto
    then show "\<exists>k \<le> length (d # ds). CHR 0x0A \<notin> set (take k (d # ds)) \<and>
        matchItems r (drop k (d # ds))"
    proof cases
      case 1
      then show ?thesis by (intro exI [of _ 0]) simp
    next
      case 2
      with Cons.IH obtain k where "k \<le> length ds" "CHR 0x0A \<notin> set (take k ds)"
        "matchItems r (drop k ds)" by blast
      with 2(1) show ?thesis by (intro exI [of _ "Suc k"]) simp
    qed
  next
    assume "\<exists>k \<le> length (d # ds). CHR 0x0A \<notin> set (take k (d # ds)) \<and>
        matchItems r (drop k (d # ds))"
    then obtain k where k: "k \<le> length (d # ds)" "CHR 0x0A \<notin> set (take k (d # ds))"
      "matchItems r (drop k (d # ds))" by blast
    show "matchItems (AnyStar # r) (d # ds)"
    proof (cases k)
      case 0
      with k show ?thesis by simp
    next
      case (Suc k')
      with k have "k' \<le> length ds" "CHR 0x0A \<notin> set (take k' ds)" "matchItems r (drop k' ds)"
        "d \<noteq> CHR 0x0A" by auto
      with Cons.IH show ?thesis by auto
    qed
  qed
qed

lemma matchItems_glob: "matchItems (map itemOf alt) s = globMatch alt s"
proof (induction alt arbitrary: s)
  case Nil
  then show ?case by simp
next
  case (Cons c alt)
  show ?case
  proof (cases "c = CHR ''*''")
    case True
    have "(\<exists>k \<le> length s. CHR 0x0A \<notin> set (take k s) \<and> globMatch alt (drop k s)) \<longleftrightarrow>
          (\<exists>k \<in> set [0..<Suc (length s)]. CHR 0x0A \<notin> set (take k s) \<and> globMatch alt (drop k s))"
      unfolding set_upt Bex_def atLeastLessThan_iff less_Suc_eq_le by simp
    with True Cons.IH show ?thesis
      by (simp add: itemOf_def matchItems_star del: matchItems.simps upt_Suc)
  next
    case False
    with Cons.IH show ?thesis
      by (cases s) (auto simp: itemOf_def)
  qed
qed

lemma splitOnBar_nonempty: "splitOnBar p \<noteq> []"
  by (induction p) (auto split: list.splits)

lemma splitOnBar_chars:
  "alt \<in> set (splitOnBar p) \<Longrightarrow> c \<in> set alt \<Longrightarrow> c \<in> set p \<and> c \<noteq> CHR ''|''"
proof (induction p arbitrary: alt)
  case Nil
  then show ?case by simp
next
  case (Cons d p)
  show ?case
  proof (cases "d = CHR ''|''")
    case True
    with Cons.prems have "alt \<in> set (splitOnBar p)" by auto
    from Cons.IH [OF this Cons.prems(2)] show ?thesis by simp
  next
    case False
    obtain a as where sp: "splitOnBar p = a # as"
      using splitOnBar_nonempty [of p] by (cases "splitOnBar p") auto
    with False Cons.prems(1) consider "alt = d # a" | "alt \<in> set as" by auto
    then show ?thesis
    proof cases
      case 1
      with Cons.prems(2) consider "c = d" | "c \<in> set a" by auto
      then show ?thesis
      proof cases
        case 1
        with False show ?thesis by simp
      next
        case 2
        from Cons.IH [of a, OF _ 2] sp show ?thesis by simp
      qed
    next
      case 2
      with sp have "alt \<in> set (splitOnBar p)" by simp
      from Cons.IH [OF this Cons.prems(2)] show ?thesis by simp
    qed
  qed
qed

lemma matchAlternatives_glob:
  "set esc \<subseteq> set metachars \<Longrightarrow> \<forall>alt \<in> set alts. \<forall>c \<in> set alt. plain esc c \<Longrightarrow>
     matchAlternatives esc input alts = Match (\<exists>alt \<in> set alts. globMatch alt input)"
proof (induction alts)
  case Nil
  then show ?case by simp
next
  case (Cons alt alts)
  from Cons.prems have "\<forall>c \<in> set alt. plain esc c" by simp
  from compile_translate [OF Cons.prems(1) this] Cons show ?case
    by (simp add: matchItems_glob)
qed

lemma set_translate:
  "set (translate esc alt) \<subseteq> set alt \<union> {CHR ''.'', CHR ''*'', CHR 0x5C}"
  by (induction alt) (auto simp: translate_Nil translate_Cons translateChar_def split: if_splits)

lemma matchesRegexp_glob:
  assumes "set esc \<subseteq> set metachars"
    and "\<forall>c \<in> set pattern. c = CHR ''|'' \<or> plain esc c"
  shows "matchesRegexp esc input pattern =
           Match (\<exists>alt \<in> set (splitOnBar pattern). globMatch alt input)"
proof -
  have "\<forall>alt \<in> set (splitOnBar pattern). \<forall>c \<in> set alt. plain esc c"
  proof (intro ballI)
    fix alt c
    assume "alt \<in> set (splitOnBar pattern)" and "c \<in> set alt"
    then have "c \<in> set pattern \<and> c \<noteq> CHR ''|''" by (rule splitOnBar_chars)
    with assms(2) show "plain esc c" by blast
  qed
  then show ?thesis
    unfolding matchesRegexp_def by (rule matchAlternatives_glob [OF assms(1)])
qed

lemma matchesRegexp_open_bracket:
  assumes "CHR ''['' \<notin> set esc"
  shows "matchesRegexp esc input ''[*.txt'' = CompileFailure"
proof -
  have "CHR '']'' \<notin> set (translate esc ''*.txt'')"
    using set_translate [of esc "''*.txt''"] by auto
  moreover have "translate esc ''[*.txt'' = CHR ''['' # translate esc ''*.txt''"
    using assms by (simp add: translate_Cons translateChar_def)
  ultimately have "compile (translate esc ''[*.txt'') = CompileError" by simp
  then show ?thesis by (simp add: matchesRegexp_def)
qed

text \<open>
  C8, as the spec states it: every regex metacharacter is escaped, so no pattern yields a
  compilation error. With every metacharacter escaped the pattern \<open>[*.txt\<close> is compiled
  and simply does not match \<open>file.txt\<close>; the sixth case of \<open>TestMatchesRegexp\<close>
  ("invalid regex pattern") requires an error for exactly this input.
\<close>

theorem matchesRegexp_all_escaped_counterexample:
  "matchesRegexp metachars ''file.txt'' ''[*.txt'' = Match False \<and>
   TestMatchesRegexp_tests ! 5 = (''file.txt'', ''[*.txt'', False, True) \<and>
   expected False True = CompileFailure"
  by code_simp

text \<open>
  C8, amended. Whatever set of metacharacters the translation escapes: a pattern made
  of \<open>*\<close>, \<open>?\<close>, \<open>|\<close>, escaped characters and characters that are not metacharacters is
  a disjunction of glob-like alternatives, and the result says, without error, whether
  the name matches one of them; where \<open>[\<close> is not escaped the pattern \<open>[*.txt\<close> is a
  compilation error; and where \<open>.\<close> is escaped and \<open>[\<close> is not, the six cases of
  \<open>TestMatchesRegexp\<close> have the results the test expects.
\<close>

theorem matchesRegexp_glob_alternatives:
  assumes "set esc \<subseteq> set metachars"
  shows "((\<forall>c \<in> set pattern. c = CHR ''|'' \<or> plain esc c) \<longrightarrow>
            matchesRegexp esc input pattern =
              Match (\<exists>alt \<in> set (splitOnBar pattern). globMatch alt input)) \<and>
         (CHR ''['' \<notin> set esc \<longrightarrow> matchesRegexp esc input ''[*.txt'' = CompileFailure) \<and>
         (CHR ''.'' \<in> set esc \<and> CHR ''['' \<notin> set esc \<longrightarrow>
            (\<forall>(name, pat, want, wantErr) \<in> set TestMatchesRegexp_tests.
                matchesRegexp esc name pat = expected want wantErr))"
proof -
  have tests: "\<forall>(name, pat, want, wantErr) \<in> set TestMatchesRegexp_tests.
      matchesRegexp esc name pat = expected want wantErr"
    if dot: "CHR ''.'' \<in> set esc" and bracket: "CHR ''['' \<notin> set esc"
  proof -
    have t1: "matchesRegexp esc ''file.txt'' ''*.txt'' = Match True"
    proof -
      have "\<forall>c \<in> set ''*.txt''. c = CHR ''|'' \<or> plain esc c"
        using dot by (simp add: plain_def metachars_def)
      from matchesRegexp_glob [OF assms this, of "''file.txt''"] show ?thesis by simp
    qed
    have t2: "matchesRegexp esc ''file.txt'' ''*.jpg'' = Match False"
    proof -
      have "\<forall>c \<in> set ''*.jpg''. c = CHR ''|'' \<or> plain esc c"
        using dot by (simp add: plain_def metachars_def)
      from matchesRegexp_glob [OF assms this, of "''file.txt''"] show ?thesis by simp
    qed
    have t3: "matchesRegexp esc ''file.txt'' ''file.?xt'' = Match True"
    proof -
      have "\<forall>c \<in> set ''file.?xt''. c = CHR ''|'' \<or> plain esc c"
        using dot by (simp add: plain_def metachars_def)
      from matchesRegexp_glob [OF assms this, of "''file.txt''"] show ?thesis by simp
    qed
    have t4: "matchesRegexp esc ''file.txt'' ''file.?jpg'' = Match False"
    proof -
      have "\<forall>c \<in> set ''file.?jpg''. c = CHR ''|'' \<or> plain esc c"
        using dot by (simp add: plain_def metachars_def)
      from matchesRegexp_glob [OF assms this, of "''file.txt''"] show ?thesis by simp
    qed
    have t5: "matchesRegexp esc ''file.txt'' ''*.jpg|*.txt'' = Match True"
    proof -
      have "\<forall>c \<in> set ''*.jpg|*.txt''. c = CHR ''|'' \<or> plain esc c"
        using dot by (simp add: plain_def metachars_def)
      from matchesRegexp_glob [OF assms this, of "''file.txt''"] show ?thesis by simp
    qed
    from t1 t2 t3 t4 t5 matchesRegexp_open_bracket [OF bracket, of "''file.txt''"]
    show ?thesis by (simp add: TestMatchesRegexp_tests_def expected_def)
  qed
  from matchesRegexp_glob [OF assms, of pattern input]
    matchesRegexp_open_bracket [of esc input] tests
  show ?thesis by blast
qed

theorem matchesRegexp_glob_alternatives_witness:
  "set ''.'' \<subseteq> set metachars \<and>
   matchesRegexp ''.'' ''file.txt'' ''*.jpg|*.txt'' = Match True \<and>
   matchesRegexp ''.'' ''file.txt'' ''[*.txt'' = CompileFailure"
proof -
  have sub: "set ''.'' \<subseteq> set metachars" by (simp add: metachars_def)
  have pl: "\<forall>c \<in> set ''*.jpg|*.txt''. c = CHR ''|'' \<or> plain ''.'' c"
    by (simp add: plain_def metachars_def)
  from matchesRegexp_glob_alternatives [OF sub, of "''*.jpg|*.txt''" "''file.txt''"] sub pl
  show ?thesis by simp
qed

end
